theory Spec2Isabelle
  imports Complex_Main "HOL-Library.Sublist" "HOL-Library.Multiset"
begin

section \<open>Values shared by the layers\<close>

text \<open>
  Payloads are JSON values. Numbers are kept as reals: the program only adds, compares and
  scales prices, and timestamps are integral milliseconds.
\<close>

datatype json =
    JNull
  | JBool bool
  | JNum real
  | JStr string
  | JArr "json list"
  | JObj "(string \<times> json) list"

section \<open>Request layer: \<open>fetchWithTimeout\<close> and the retry loop of \<open>fetchAPI\<close>\<close>

text \<open>
  What one network round trip can deliver to \<open>fetchWithTimeout\<close>: a response with its
  status and its body (\<open>None\<close> when the body is not JSON, so that \<open>response.json()\<close>
  rejects), a transport failure, or an abort by the timeout controller.
\<close>

datatype attempt =
    Response nat "json option"
  | NetworkFailure
  | Aborted

datatype js_error =
    HttpError nat          \<comment> \<open>\<open>new Error(`HTTP ${response.status}`)\<close>\<close>
  | TimedOut               \<comment> \<open>\<open>new Error('Request timed out')\<close>\<close>
  | NetworkError           \<comment> \<open>the rejection of \<open>fetch\<close> itself\<close>
  | JsonError              \<comment> \<open>the rejection of \<open>response.json()\<close>\<close>

definition API_TIMEOUT :: nat where
  "API_TIMEOUT = 10000"

definition MAX_RETRIES :: nat where
  "MAX_RETRIES = 2"

fun fetchWithTimeout :: "attempt \<Rightarrow> js_error + (nat \<times> json option)" where
  "fetchWithTimeout (Response status body) = Inr (status, body)"
| "fetchWithTimeout Aborted = Inl TimedOut"
| "fetchWithTimeout NetworkFailure = Inl NetworkError"

definition response_ok :: "nat \<Rightarrow> bool" where
  "response_ok status \<longleftrightarrow> 200 \<le> status \<and> status \<le> 299"

text \<open>
  The body of the \<open>try\<close> block of one loop iteration. Both branches under
  \<open>!response.ok\<close> throw the same error into the same \<open>catch\<close>.
\<close>

definition try_attempt :: "attempt \<Rightarrow> js_error + json" where
  "try_attempt a =
     (case fetchWithTimeout a of
        Inl error \<Rightarrow> Inl error
      | Inr (status, body) \<Rightarrow>
          if \<not> response_ok status then
            (if 400 \<le> status \<and> status < 500 then Inl (HttpError status)
             else Inl (HttpError status))
          else (case body of None \<Rightarrow> Inl JsonError | Some data \<Rightarrow> Inr data))"

text \<open>
  The effects of the loop, in order: the attempts made and the back-off delays waited.
\<close>

datatype net_event = Attempt nat | Backoff nat

text \<open>
  \<open>for (let attempt = 0; attempt <= retries; attempt++)\<close>. The network is a function
  from the attempt index to what that attempt delivers. The result is the settled value
  of the request promise (\<open>Inl lastError\<close> for \<open>throw lastError\<close>) and the effects.
\<close>

function request_loop ::
  "nat \<Rightarrow> (nat \<Rightarrow> attempt) \<Rightarrow> nat \<Rightarrow> js_error option \<Rightarrow> net_event list
   \<Rightarrow> (js_error option + json) \<times> net_event list" where
  "request_loop retries net attempt lastError evs =
     (if attempt \<le> retries then
        (case try_attempt (net attempt) of
           Inr data \<Rightarrow> (Inr data, evs @ [Attempt attempt])
         | Inl error \<Rightarrow>
             request_loop retries net (attempt + 1) (Some error)
               (evs @ [Attempt attempt] @
                 (if attempt < retries then [Backoff (500 * 2 ^ attempt)] else [])))
      else (Inl lastError, evs))"
  by pat_completeness auto
termination
  by (relation "measure (\<lambda>(retries, net, attempt, lastError, evs). Suc retries - attempt)") auto

declare request_loop.simps [simp del]

definition request_promise :: "nat \<Rightarrow> (nat \<Rightarrow> attempt) \<Rightarrow> (js_error option + json) \<times> net_event list" where
  "request_promise retries net = request_loop retries net 0 None []"

definition attempts_made :: "net_event list \<Rightarrow> nat" where
  "attempts_made evs = length [e \<leftarrow> evs. case e of Attempt _ \<Rightarrow> True | Backoff _ \<Rightarrow> False]"

text \<open>
  The effects of a request all of whose attempts fail, from attempt \<open>attempt\<close> on: every
  attempt up to \<open>retries\<close>, each but the last followed by its back-off.
\<close>

definition schedule :: "nat \<Rightarrow> nat \<Rightarrow> net_event list" where
  "schedule retries attempt =
     concat (map (\<lambda>i. Attempt i # (if i < retries then [Backoff (500 * 2 ^ i)] else []))
               [attempt..<Suc retries])"

section \<open>Response cache and coalescing in \<open>fetchAPI\<close>\<close>

text \<open>
  \<open>state.cache\<close> and \<open>state.pendingRequests\<close> are maps keyed by the endpoint. A
  request promise is named by its number in \<open>issued\<close>, the list of the request
  promises created so far, each with its endpoint and its \<open>retries\<close>; \<open>settled\<close>
  holds the value of every request promise that has settled.
\<close>

record cache_entry =
  ce_data :: json
  ce_timestamp :: int

record api_state =
  cache :: "string \<rightharpoonup> cache_entry"
  pendingRequests :: "string \<rightharpoonup> nat"
  issued :: "(string \<times> nat) list"
  settled :: "nat \<rightharpoonup> (js_error option + json)"

definition cacheTimeout :: int where
  "cacheTimeout = 30000"

definition initial_api_state :: api_state where
  "initial_api_state =
     \<lparr>cache = Map.empty, pendingRequests = Map.empty, issued = [], settled = Map.empty\<rparr>"

text \<open>What a call of \<open>fetchAPI\<close> hands back before anything is awaited.\<close>

datatype fetch_return = Cached json | Promise nat

text \<open>
  The cache check: a fresh entry is returned, an expired one is deleted. Nothing is
  looked up when \<open>skipCache\<close> is set.
\<close>

definition check_cache :: "int \<Rightarrow> string \<Rightarrow> bool \<Rightarrow> api_state \<Rightarrow> json option \<times> api_state" where
  "check_cache now cacheKey skipCache s =
     (if \<not> skipCache \<and> cache s cacheKey \<noteq> None then
        (let cached = the (cache s cacheKey) in
         if now - ce_timestamp cached < cacheTimeout then (Some (ce_data cached), s)
         else (None, s\<lparr>cache := (cache s)(cacheKey := None)\<rparr>))
      else (None, s))"

text \<open>
  The synchronous part of \<open>fetchAPI(endpoint, skipCache, retries)\<close> at time \<open>now\<close>:
  up to the first \<open>await\<close> no other code runs. A call that finds a pending request
  returns its promise; otherwise it creates the request promise, which starts the first
  attempt, and registers it.
\<close>

definition fetchAPI :: "int \<Rightarrow> string \<Rightarrow> bool \<Rightarrow> nat \<Rightarrow> api_state \<Rightarrow> fetch_return \<times> api_state" where
  "fetchAPI now endpoint skipCache retries s =
     (let cacheKey = endpoint in
      case check_cache now cacheKey skipCache s of
        (Some data, s1) \<Rightarrow> (Cached data, s1)
      | (None, s1) \<Rightarrow>
          (case pendingRequests s1 cacheKey of
             Some requestPromise \<Rightarrow> (Promise requestPromise, s1)
           | None \<Rightarrow>
               let requestPromise = length (issued s1) in
               (Promise requestPromise,
                s1\<lparr>issued := issued s1 @ [(endpoint, retries)],
                   pendingRequests := (pendingRequests s1)(cacheKey \<mapsto> requestPromise)\<rparr>)))"

text \<open>
  The request promise \<open>p\<close> settles at time \<open>now\<close>, the network having answered its
  attempts as \<open>net\<close> says: a success is cached under the endpoint, the promise gets its
  value, and the \<open>finally\<close> of the call that created it deletes the pending entry.
\<close>

definition settle_request :: "int \<Rightarrow> nat \<Rightarrow> (nat \<Rightarrow> attempt) \<Rightarrow> api_state \<Rightarrow> api_state" where
  "settle_request now p net s =
     (if p < length (issued s) \<and> settled s p = None then
        (case issued s ! p of
           (endpoint, retries) \<Rightarrow>
             let result = fst (request_promise retries net) in
             s\<lparr>cache := (case result of
                           Inr data \<Rightarrow> (cache s)(endpoint \<mapsto> \<lparr>ce_data = data, ce_timestamp = now\<rparr>)
                         | Inl error \<Rightarrow> cache s),
                settled := (settled s)(p \<mapsto> result),
                pendingRequests := (pendingRequests s)(endpoint := None)\<rparr>)
      else s)"

text \<open>
  The event loop runs these two kinds of steps in any order; \<open>run\<close> also collects what
  the calls returned.
\<close>

datatype event =
    Call int string bool nat
  | Settle int nat "nat \<Rightarrow> attempt"

fun run :: "event list \<Rightarrow> api_state \<Rightarrow> fetch_return list \<times> api_state" where
  "run [] s = ([], s)"
| "run (Call now endpoint skipCache retries # evs) s =
     (case fetchAPI now endpoint skipCache retries s of
        (r, s1) \<Rightarrow> (case run evs s1 of (rs, s2) \<Rightarrow> (r # rs, s2)))"
| "run (Settle now p net # evs) s = run evs (settle_request now p net s)"

text \<open>The request promises for an endpoint that have not settled yet.\<close>

definition in_flight :: "api_state \<Rightarrow> string \<Rightarrow> nat list" where
  "in_flight s endpoint =
     filter (\<lambda>p. fst (issued s ! p) = endpoint \<and> settled s p = None) [0..<length (issued s)]"

text \<open>What a caller has received in state \<open>s\<close> for what its call returned.\<close>

definition received :: "api_state \<Rightarrow> fetch_return \<Rightarrow> (js_error option + json) option" where
  "received s r = (case r of Cached data \<Rightarrow> Some (Inr data) | Promise p \<Rightarrow> settled s p)"

text \<open>
  The bookkeeping that coalescing keeps: the pending entry of an endpoint names exactly
  the request promise for that endpoint that has not settled, and only issued promises
  settle.
\<close>

definition coalesced :: "api_state \<Rightarrow> bool" where
  "coalesced s \<longleftrightarrow>
     (\<forall>endpoint p. pendingRequests s endpoint = Some p \<longrightarrow>
        p < length (issued s) \<and> fst (issued s ! p) = endpoint \<and> settled s p = None)
   \<and> (\<forall>p. p < length (issued s) \<longrightarrow> settled s p = None \<longrightarrow>
        pendingRequests s (fst (issued s ! p)) = Some p)
   \<and> (\<forall>p. settled s p \<noteq> None \<longrightarrow> p < length (issued s))"

text \<open>
  A fresh cache entry for the endpoint at time \<open>now\<close>, and \<open>K\<close> calls for one
  endpoint, each with its time, its \<open>skipCache\<close> and its \<open>retries\<close>.
\<close>

definition fresh :: "api_state \<Rightarrow> string \<Rightarrow> int \<Rightarrow> bool" where
  "fresh s endpoint now \<longleftrightarrow>
     (case cache s endpoint of
        None \<Rightarrow> False
      | Some entry \<Rightarrow> now - ce_timestamp entry < cacheTimeout)"

definition concurrent_calls :: "string \<Rightarrow> (int \<times> bool \<times> nat) list \<Rightarrow> event list" where
  "concurrent_calls endpoint args = map (\<lambda>(now, skipCache, retries). Call now endpoint skipCache retries) args"

text \<open>
  Sessions in which no call bypasses the cache, and what they keep: while a request is
  pending for an endpoint, nothing is cached for it.
\<close>

fun without_bypass :: "event list \<Rightarrow> bool" where
  "without_bypass [] = True"
| "without_bypass (Call now endpoint skipCache retries # evs) = (\<not> skipCache \<and> without_bypass evs)"
| "without_bypass (Settle now p net # evs) = without_bypass evs"

definition uncached_while_pending :: "api_state \<Rightarrow> bool" where
  "uncached_while_pending s \<longleftrightarrow> (\<forall>k. pendingRequests s k \<noteq> None \<longrightarrow> cache s k = None)"

section \<open>Asset cache proxy: the \<open>fetch\<close> listener of the service worker\<close>

text \<open>
  A request as the listener reads it: its method, its whole URL (which is what
  \<open>caches.match\<close> and \<open>cache.put\<close> compare, query included) and the path of that
  URL, \<open>new URL(request.url).pathname\<close>.
\<close>

record sw_request =
  rq_method :: string
  rq_url :: string
  rq_pathname :: string

record sw_response =
  rs_status :: nat
  rs_content_type :: "string option"
  rs_body :: json

datatype network = Delivered sw_response | Unreachable

text \<open>
  What the listener does with the event: nothing (the browser handles the request), a
  response, or a rejected promise passed to \<open>respondWith\<close>.
\<close>

datatype handled = NotIntercepted | Responded sw_response | Rejected

text \<open>\<open>new Response(JSON.stringify({success: false, error: 'You are offline'}), ...)\<close>\<close>

definition offline_response :: sw_response where
  "offline_response =
     \<lparr>rs_status = 200, rs_content_type = Some ''application/json'',
      rs_body = JObj [(''success'', JBool False), (''error'', JStr ''You are offline'')]\<rparr>"

text \<open>
  The listener, with the cache \<open>CACHE_NAME\<close> as a map from the URL to the stored
  response; the cache after the background work is returned with the answer.
\<close>

definition fetch_listener ::
  "sw_request \<Rightarrow> (string \<rightharpoonup> sw_response) \<Rightarrow> network \<Rightarrow> handled \<times> (string \<rightharpoonup> sw_response)" where
  "fetch_listener request caches net =
     (if rq_method request \<noteq> ''GET'' then (NotIntercepted, caches)
      else if prefix ''/api/'' (rq_pathname request) then
        (case net of
           Delivered response \<Rightarrow> (Responded response, caches)
         | Unreachable \<Rightarrow> (Responded offline_response, caches))
      else
        (case caches (rq_url request) of
           Some cachedResponse \<Rightarrow>
             (Responded cachedResponse,
              case net of
                Delivered response \<Rightarrow>
                  if response_ok (rs_status response)
                  then caches(rq_url request \<mapsto> response) else caches
              | Unreachable \<Rightarrow> caches)
         | None \<Rightarrow>
             (case net of
                Delivered response \<Rightarrow>
                  (Responded response,
                   if response_ok (rs_status response)
                   then caches(rq_url request \<mapsto> response) else caches)
              | Unreachable \<Rightarrow> (Rejected, caches))))"

section \<open>Candle synthesis\<close>

text \<open>
  A sale point of the chart payload, \<open>{x, y, variant, date}\<close>: \<open>pt_x\<close> is the
  sale time in epoch milliseconds, \<open>pt_y\<close> the price, \<open>pt_variant\<close> the category
  label and \<open>pt_date\<close> the day key. A candle is \<open>{time, open, high, low, close}\<close>.
\<close>

record point =
  pt_x :: int
  pt_y :: real
  pt_variant :: string
  pt_date :: string

record candle =
  c_time :: int
  c_open :: real
  c_high :: real
  c_low :: real
  c_close :: real

record chart_payload =
  data_points :: "point list"

subsection \<open>Property lookup on object literals\<close>

text \<open>
  \<open>obj[k]\<close> on an object literal finds the object's own property, or else what
  \<open>Object.prototype\<close> provides under that name (a function, or the prototype itself
  for \<open>__proto__\<close>: truthy, and without \<open>push\<close> or \<open>prices\<close>), or else
  \<open>undefined\<close>. Own properties are kept in insertion order, which is the order of
  \<open>Object.keys\<close> and \<open>Object.values\<close> for keys that are not array indices.
\<close>

definition Object_prototype_keys :: "string list" where
  "Object_prototype_keys =
     [''constructor'', ''__defineGetter__'', ''__defineSetter__'', ''hasOwnProperty'',
      ''__lookupGetter__'', ''__lookupSetter__'', ''isPrototypeOf'',
      ''propertyIsEnumerable'', ''toString'', ''valueOf'', ''__proto__'',
      ''toLocaleString'']"

datatype 'a property = Own 'a | Inherited | Undefined

definition object_get :: "(string \<times> 'a) list \<Rightarrow> string \<Rightarrow> 'a property" where
  "object_get obj k =
     (case map_of obj k of
        Some v \<Rightarrow> Own v
      | None \<Rightarrow> if k \<in> set Object_prototype_keys then Inherited else Undefined)"

definition object_set :: "(string \<times> 'a) list \<Rightarrow> string \<Rightarrow> 'a \<Rightarrow> (string \<times> 'a) list" where
  "object_set obj k v =
     (if k \<in> fst ` set obj then map (\<lambda>(k', v'). if k' = k then (k', v) else (k', v')) obj
      else obj @ [(k, v)])"

subsection \<open>\<open>Array.prototype.sort\<close> with a comparator\<close>

text \<open>
  The sort is stable: an element goes in front of the first one it does not compare
  greater than, and the elements are inserted from the right.
\<close>

fun insert_by :: "('a \<Rightarrow> 'a \<Rightarrow> int) \<Rightarrow> 'a \<Rightarrow> 'a list \<Rightarrow> 'a list" where
  "insert_by cmp a [] = [a]"
| "insert_by cmp a (b # bs) = (if cmp a b \<le> 0 then a # b # bs else b # insert_by cmp a bs)"

definition js_sort :: "('a \<Rightarrow> 'a \<Rightarrow> int) \<Rightarrow> 'a list \<Rightarrow> 'a list" where
  "js_sort cmp xs = foldr (insert_by cmp) xs []"

subsection \<open>Grouping by variant\<close>

datatype series = Series string

datatype chart_call =
    CreateChart
  | RemoveChart
  | RemoveSeries series
  | AddCandlestickSeries string
  | SetData series "candle list"
  | FitContent

datatype js_exn =
    TypeError
  | ChartException chart_call

definition variantGroups :: "(string \<times> point list) list" where
  "variantGroups = [(''jumbo'', []), (''breakers_delight'', []), (''hobby'', [])]"

definition variantOffsets :: "(string \<times> int) list" where
  "variantOffsets = [(''jumbo'', 0), (''breakers_delight'', 300), (''hobby'', 600)]"

text \<open>
  One step of \<open>data.data_points.forEach\<close>: \<open>if (variantGroups[v]) variantGroups[v].push(point)\<close>.
  An inherited property passes the truthiness test and has no \<open>push\<close>.
\<close>

definition group_point ::
  "(string \<times> point list) list \<Rightarrow> point \<Rightarrow> js_exn + (string \<times> point list) list" where
  "group_point groups p =
     (let v = pt_variant p in
      case object_get groups v of
        Own ps \<Rightarrow> Inr (object_set groups v (ps @ [p]))
      | Inherited \<Rightarrow> Inl TypeError
      | Undefined \<Rightarrow> Inr groups)"

fun group_points ::
  "(string \<times> point list) list \<Rightarrow> point list \<Rightarrow> js_exn + (string \<times> point list) list" where
  "group_points groups [] = Inr groups"
| "group_points groups (p # ps) =
     (case group_point groups p of
        Inl e \<Rightarrow> Inl e
      | Inr groups' \<Rightarrow> group_points groups' ps)"

subsection \<open>Candles\<close>

definition sort_by_x :: "point list \<Rightarrow> point list" where
  "sort_by_x points = js_sort (\<lambda>a b. pt_x a - pt_x b) points"

definition overlay_candle :: "int \<Rightarrow> nat \<Rightarrow> point \<Rightarrow> candle" where
  "overlay_candle offsetSeconds index p =
     (let price = pt_y p;
          actualTime = pt_x p div 1000 + int index * 3600 + offsetSeconds;
          variance = price * 0.003
      in \<lparr>c_time = actualTime, c_open = price - variance, c_high = price + variance,
          c_low = price - variance, c_close = price + variance\<rparr>)"

definition single_candle :: "nat \<Rightarrow> point \<Rightarrow> candle" where
  "single_candle index p =
     (let price = pt_y p;
          actualTime = pt_x p div 1000 + int index * 3600;
          variance = price * 0.005
      in \<lparr>c_time = actualTime, c_open = price - variance, c_high = price + variance,
          c_low = price - variance, c_close = price + variance\<rparr>)"

text \<open>
  The \<open>candleData\<close> of one variant of the overlay, and of the single view. The variant
  keys are those of \<open>variantGroups\<close>, each of which has its entry in \<open>variantOffsets\<close>.
\<close>

definition variant_candles :: "string \<Rightarrow> point list \<Rightarrow> candle list" where
  "variant_candles variantKey points =
     (let offsetSeconds = the (map_of variantOffsets variantKey);
          sorted = sort_by_x points
      in map (\<lambda>(index, p). overlay_candle offsetSeconds index p) (enumerate 0 sorted))"

definition single_candles :: "point list \<Rightarrow> candle list" where
  "single_candles points =
     (let sortedPoints = sort_by_x points
      in map (\<lambda>(index, p). single_candle index p) (enumerate 0 sortedPoints))"

text \<open>
  The series the overlay hands to the chart: one per variant key with at least one
  point, in the order of \<open>Object.keys(variantGroups)\<close>.
\<close>

definition overlay_series :: "point list \<Rightarrow> js_exn + (string \<times> candle list) list" where
  "overlay_series points =
     (case group_points variantGroups points of
        Inl e \<Rightarrow> Inl e
      | Inr groups \<Rightarrow>
          Inr (map (\<lambda>(variantKey, ps). (variantKey, variant_candles variantKey ps))
                 (filter (\<lambda>(variantKey, ps). ps \<noteq> []) groups)))"

text \<open>The order a candle must keep: the body and both ends within low and high.\<close>

definition ohlc_ordered :: "candle \<Rightarrow> bool" where
  "ohlc_ordered c \<longleftrightarrow>
     c_low c \<le> c_open c \<and> c_open c \<le> c_high c \<and> c_low c \<le> c_close c \<and> c_close c \<le> c_high c"

text \<open>
  The candle built from one price with a variance fraction: \<open>open = low = price - v\<close>
  and \<open>close = high = price + v\<close> for \<open>v = price * fraction\<close>.
\<close>

definition candle_of_price :: "real \<Rightarrow> real \<Rightarrow> candle \<Rightarrow> bool" where
  "candle_of_price fraction price c \<longleftrightarrow>
     c_open c = price - price * fraction \<and> c_low c = price - price * fraction \<and>
     c_close c = price + price * fraction \<and> c_high c = price + price * fraction"

section \<open>Fallback summary\<close>

text \<open>
  The statistics are JavaScript numbers: dividing zero by zero gives \<open>NaN\<close>, and
  \<open>Math.max()\<close> and \<open>Math.min()\<close> of no argument give \<open>-Infinity\<close> and
  \<open>Infinity\<close>. Prices themselves are finite.
\<close>

datatype js_number = Finite real | PosInfinity | NegInfinity | NaN

definition js_divide :: "real \<Rightarrow> nat \<Rightarrow> js_number" where
  "js_divide a n =
     (if n = 0 then (if a = 0 then NaN else if 0 < a then PosInfinity else NegInfinity)
      else Finite (a / real n))"

fun Math_max :: "real list \<Rightarrow> js_number" where
  "Math_max [] = NegInfinity"
| "Math_max (p # ps) = Finite (fold max ps p)"

fun Math_min :: "real list \<Rightarrow> js_number" where
  "Math_min [] = PosInfinity"
| "Math_min (p # ps) = Finite (fold min ps p)"

record day =
  d_date :: string
  d_prices :: "real list"
  d_count :: nat

record day_row =
  r_date :: string
  r_count :: nat
  r_avg :: js_number
  r_high :: js_number
  r_low :: js_number

record fallback_view =
  v_avg :: js_number
  v_high :: js_number
  v_low :: js_number
  v_total :: nat
  v_rows :: "day_row list"

text \<open>
  One step of the grouping by date. \<open>if (!dailyData[date]) dailyData[date] = {date,
  prices: [], count: 0}\<close>, then the push and the increment: an inherited property
  passes the test, and has no \<open>prices\<close> to push to.
\<close>

definition daily_point :: "(string \<times> day) list \<Rightarrow> point \<Rightarrow> js_exn + (string \<times> day) list" where
  "daily_point dailyData p =
     (let date = pt_date p in
      case object_get dailyData date of
        Undefined \<Rightarrow>
          Inr (object_set dailyData date \<lparr>d_date = date, d_prices = [pt_y p], d_count = 1\<rparr>)
      | Own d \<Rightarrow>
          Inr (object_set dailyData date
                 (d\<lparr>d_prices := d_prices d @ [pt_y p], d_count := d_count d + 1\<rparr>))
      | Inherited \<Rightarrow> Inl TypeError)"

fun daily_points :: "(string \<times> day) list \<Rightarrow> point list \<Rightarrow> js_exn + (string \<times> day) list" where
  "daily_points dailyData [] = Inr dailyData"
| "daily_points dailyData (p # ps) =
     (case daily_point dailyData p of
        Inl e \<Rightarrow> Inl e
      | Inr dailyData' \<Rightarrow> daily_points dailyData' ps)"

definition day_row_of :: "day \<Rightarrow> day_row" where
  "day_row_of d =
     \<lparr>r_date = d_date d, r_count = d_count d,
      r_avg = js_divide (sum_list (d_prices d)) (length (d_prices d)),
      r_high = Math_max (d_prices d), r_low = Math_min (d_prices d)\<rparr>"

text \<open>
  What \<open>renderFallbackChart\<close> computes and writes into the container. The collation
  \<open>localeCompare\<close> is the browser's and is a parameter.
\<close>

definition fallback_summary ::
  "(string \<Rightarrow> string \<Rightarrow> int) \<Rightarrow> chart_payload \<Rightarrow> js_exn + fallback_view" where
  "fallback_summary localeCompare data =
     (case daily_points [] (data_points data) of
        Inl e \<Rightarrow> Inl e
      | Inr dailyData \<Rightarrow>
          let sortedDays =
                take 10 (js_sort (\<lambda>a b. localeCompare (d_date b) (d_date a)) (map snd dailyData));
              allPrices = map pt_y (data_points data);
              avg = (if length allPrices > 0
                     then js_divide (sum_list allPrices) (length allPrices) else Finite 0);
              high = (if length allPrices > 0 then Math_max allPrices else Finite 0);
              low = (if length allPrices > 0 then Math_min allPrices else Finite 0)
          in Inr \<lparr>v_avg = avg, v_high = high, v_low = low,
                  v_total = length (data_points data),
                  v_rows = map day_row_of sortedDays\<rparr>)"

section \<open>Chart capability manager\<close>

text \<open>
  The manager's part of the application state, and what it reads from its surroundings
  at each call: whether the global \<open>LightweightCharts\<close> is defined, whether the
  elements \<open>mainChart\<close> and \<open>chartLegend\<close> exist, and which calls into the
  charting library throw. Every call into the library is logged with whether it threw.
\<close>

datatype chart_handle = Chart

record chart_state =
  chart :: "chart_handle option"
  chartSeries :: "series list"
  chartFallbackMode :: bool

record env =
  LightweightCharts_defined :: bool
  has_container :: bool
  has_legend :: bool
  throws :: "chart_call \<Rightarrow> bool"
  localeCompare :: "string \<Rightarrow> string \<Rightarrow> int"

type_synonym call_log = "(chart_call \<times> bool) list"

definition initial_chart_state :: chart_state where
  "initial_chart_state = \<lparr>chart = None, chartSeries = [], chartFallbackMode = False\<rparr>"

definition isChartLibraryAvailable :: "env \<Rightarrow> bool" where
  "isChartLibraryAvailable e = LightweightCharts_defined e"

definition renderFallbackChart ::
  "env \<Rightarrow> chart_state \<Rightarrow> chart_payload \<Rightarrow> string
   \<Rightarrow> chart_state \<times> (js_exn + fallback_view option)" where
  "renderFallbackChart e s data variant =
     (if \<not> has_container e then (s, Inr None)
      else
        let s' = s\<lparr>chartFallbackMode := True\<rparr> in
        case fallback_summary (localeCompare e) data of
          Inl ex \<Rightarrow> (s', Inl ex)
        | Inr view \<Rightarrow> (s', Inr (Some view)))"

text \<open>
  \<open>initChart\<close>: the container guard comes before the library check; everything
  after the library check runs inside \<open>try\<close>, and the \<open>catch\<close> sets the fallback
  flag. \<open>state.chart.remove()\<close> has a \<open>try\<close> of its own that ignores what it throws.
\<close>

definition initChart :: "env \<Rightarrow> chart_state \<Rightarrow> bool \<times> chart_state \<times> call_log" where
  "initChart e s =
     (if \<not> has_container e then (False, s, [])
      else if \<not> isChartLibraryAvailable e then (False, s\<lparr>chartFallbackMode := True\<rparr>, [])
      else
        let (s1, log1) =
              (case chart s of
                 None \<Rightarrow> (s, [])
               | Some c \<Rightarrow>
                   (s\<lparr>chart := None, chartSeries := []\<rparr>, [(RemoveChart, throws e RemoveChart)]))
        in if throws e CreateChart
           then (False, s1\<lparr>chartFallbackMode := True\<rparr>, log1 @ [(CreateChart, True)])
           else (True, s1\<lparr>chart := Some Chart, chartFallbackMode := False\<rparr>,
                 log1 @ [(CreateChart, False)]))"

text \<open>
  The loop over \<open>Object.keys(variantGroups)\<close>: a variant without points is skipped;
  the others get a series, its data, and a place in \<open>state.chartSeries\<close>. A throwing
  call leaves the loop. The result is the state, the calls made and the exception, if any.
\<close>

fun add_variant_series ::
  "env \<Rightarrow> (string \<times> point list) list \<Rightarrow> chart_state \<Rightarrow> chart_state \<times> call_log \<times> js_exn option" where
  "add_variant_series e [] s = (s, [], None)"
| "add_variant_series e ((variantKey, points) # rest) s =
     (if points = [] then add_variant_series e rest s
      else
        let candleData = variant_candles variantKey points in
        if throws e (AddCandlestickSeries variantKey)
        then (s, [(AddCandlestickSeries variantKey, True)],
              Some (ChartException (AddCandlestickSeries variantKey)))
        else if throws e (SetData (Series variantKey) candleData)
        then (s, [(AddCandlestickSeries variantKey, False),
                  (SetData (Series variantKey) candleData, True)],
              Some (ChartException (SetData (Series variantKey) candleData)))
        else
          (case add_variant_series e rest (s\<lparr>chartSeries := chartSeries s @ [Series variantKey]\<rparr>) of
             (s', calls, ex) \<Rightarrow>
               (s', [(AddCandlestickSeries variantKey, False),
                     (SetData (Series variantKey) candleData, False)] @ calls, ex)))"

definition render_overlay :: "env \<Rightarrow> chart_state \<Rightarrow> chart_payload \<Rightarrow> chart_state \<times> call_log \<times> js_exn option" where
  "render_overlay e s data =
     (case group_points variantGroups (data_points data) of
        Inl ex \<Rightarrow> (s, [], Some ex)
      | Inr groups \<Rightarrow>
          (case add_variant_series e groups s of
             (s', calls, Some ex) \<Rightarrow> (s', calls, Some ex)
           | (s', calls, None) \<Rightarrow>
               if throws e FitContent
               then (s', calls @ [(FitContent, True)], Some (ChartException FitContent))
               else (s', calls @ [(FitContent, False)], None)))"

text \<open>
  The calls that attach the series of \<open>overlay_series\<close> when no call throws.
\<close>

definition series_calls :: "(string \<times> candle list) list \<Rightarrow> call_log" where
  "series_calls out =
     concat (map (\<lambda>(variantKey, candleData).
                    [(AddCandlestickSeries variantKey, False),
                     (SetData (Series variantKey) candleData, False)]) out)"

text \<open>
  The single view. \<open>updateChartLegend\<close> writes to \<open>legend.innerHTML\<close> in the branch
  it enters when \<open>legend\<close> is null, which throws.
\<close>

definition render_single ::
  "env \<Rightarrow> chart_state \<Rightarrow> chart_payload \<Rightarrow> string \<Rightarrow> chart_state \<times> call_log \<times> js_exn option" where
  "render_single e s data variant =
     (let candleData = single_candles (data_points data);
          candleSeries = Series variant
      in
      if throws e (AddCandlestickSeries variant)
      then (s, [(AddCandlestickSeries variant, True)],
            Some (ChartException (AddCandlestickSeries variant)))
      else if candleData \<noteq> [] \<and> throws e (SetData candleSeries candleData)
      then (s, [(AddCandlestickSeries variant, False), (SetData candleSeries candleData, True)],
            Some (ChartException (SetData candleSeries candleData)))
      else if candleData \<noteq> [] \<and> throws e FitContent
      then (s, [(AddCandlestickSeries variant, False), (SetData candleSeries candleData, False),
                (FitContent, True)],
            Some (ChartException FitContent))
      else
        (s\<lparr>chartSeries := chartSeries s @ [candleSeries]\<rparr>,
         (AddCandlestickSeries variant, False) #
           (if candleData \<noteq> [] then [(SetData candleSeries candleData, False), (FitContent, False)]
            else []),
         if has_legend e then None else Some TypeError))"

text \<open>
  The \<open>try\<close> block of \<open>updateCandlestickChart\<close>: each \<open>removeSeries\<close> has a
  \<open>try\<close> of its own with an empty \<open>catch\<close>.
\<close>

definition render ::
  "env \<Rightarrow> chart_state \<Rightarrow> chart_payload \<Rightarrow> string \<Rightarrow> chart_state \<times> call_log \<times> js_exn option" where
  "render e s data variant =
     (let removed = map (\<lambda>sr. (RemoveSeries sr, throws e (RemoveSeries sr))) (chartSeries s);
          s1 = s\<lparr>chartSeries := []\<rparr>
      in case (if variant = ''all'' then render_overlay e s1 data
               else render_single e s1 data variant) of
           (s', calls, ex) \<Rightarrow> (s', removed @ calls, ex))"

text \<open>
  What one data update did: the library calls it made, the exception its \<open>catch\<close>
  caught, and what \<open>renderFallbackChart\<close> returned when it was called (\<open>Inl\<close>: it
  threw, and the exception leaves \<open>updateCandlestickChart\<close>).
\<close>

record update_out =
  u_calls :: call_log
  u_caught :: "js_exn option"
  u_fallback :: "(js_exn + fallback_view option) option"

definition updateCandlestickChart ::
  "env \<Rightarrow> chart_state \<Rightarrow> chart_payload \<Rightarrow> string \<Rightarrow> chart_state \<times> update_out" where
  "updateCandlestickChart e s data variant =
     (if chartFallbackMode s \<or> \<not> isChartLibraryAvailable e then
        (case renderFallbackChart e s data variant of
           (s', r) \<Rightarrow> (s', \<lparr>u_calls = [], u_caught = None, u_fallback = Some r\<rparr>))
      else
        case (case chart s of None \<Rightarrow> initChart e s | Some c \<Rightarrow> (True, s, [])) of
          (success, s1, calls1) \<Rightarrow>
            if \<not> success then
              (case renderFallbackChart e s1 data variant of
                 (s', r) \<Rightarrow> (s', \<lparr>u_calls = calls1, u_caught = None, u_fallback = Some r\<rparr>))
            else
              (case render e s1 data variant of
                 (s2, calls2, None) \<Rightarrow>
                   (s2, \<lparr>u_calls = calls1 @ calls2, u_caught = None, u_fallback = None\<rparr>)
               | (s2, calls2, Some ex) \<Rightarrow>
                   (case renderFallbackChart e s2 data variant of
                      (s', r) \<Rightarrow>
                        (s', \<lparr>u_calls = calls1 @ calls2, u_caught = Some ex,
                              u_fallback = Some r\<rparr>))))"

text \<open>A session: data updates one after the other, each in its own surroundings.\<close>

fun run_updates ::
  "(env \<times> chart_payload \<times> string) list \<Rightarrow> chart_state \<Rightarrow> chart_state \<times> update_out list" where
  "run_updates [] s = (s, [])"
| "run_updates ((e, data, variant) # us) s =
     (case updateCandlestickChart e s data variant of
        (s1, out) \<Rightarrow> (case run_updates us s1 of (s2, outs) \<Rightarrow> (s2, out # outs)))"

text \<open>
  The state the manager is in, as the test at the head of \<open>updateCandlestickChart\<close>
  reads it: fallback when the flag is set or the library is not defined.
\<close>

datatype render_state = Uninitialized | Live | Fallback

definition render_state :: "env \<Rightarrow> chart_state \<Rightarrow> render_state" where
  "render_state e s =
     (if chartFallbackMode s \<or> \<not> isChartLibraryAvailable e then Fallback
      else if chart s \<noteq> None then Live
      else Uninitialized)"

text \<open>
  The order of strings by their code units, which is how the collation orders day keys
  of the form \<open>YYYY-MM-DD\<close>; it stands for \<open>localeCompare\<close> in the examples.
\<close>

fun code_unit_order :: "string \<Rightarrow> string \<Rightarrow> int" where
  "code_unit_order [] [] = 0"
| "code_unit_order [] (b # bs) = - 1"
| "code_unit_order (a # as) [] = 1"
| "code_unit_order (a # as) (b # bs) =
     (if (of_char a :: nat) < of_char b then - 1
      else if (of_char b :: nat) < of_char a then 1
      else code_unit_order as bs)"

section \<open>Retry classification\<close>

text \<open>
  A failed attempt is retried whatever made it fail: a response that is not ok (4xx as
  well as 5xx), a transport failure or a timeout. When all attempts fail there are
  \<open>retries + 1\<close> of them, with the delays \<open>500 * 2 ^ attempt\<close> in between, which
  increase strictly.
\<close>

lemma request_loop_all_fail:
  assumes "\<forall>i. attempt \<le> i \<and> i \<le> retries \<longrightarrow> (\<exists>err. try_attempt (net i) = Inl err)"
  shows "snd (request_loop retries net attempt lastError evs) = evs @ schedule retries attempt
       \<and> (\<exists>err. fst (request_loop retries net attempt lastError evs) = Inl err)"
  using assms
proof (induction retries net attempt lastError evs rule: request_loop.induct)
  case (1 retries net attempt lastError evs)
  show ?case
  proof (cases "attempt \<le> retries")
    case False
    then show ?thesis
      by (simp add: request_loop.simps [of retries net attempt] schedule_def)
  next
    case True
    with "1.prems" obtain err where err: "try_attempt (net attempt) = Inl err" by blast
    have "\<forall>i. attempt + 1 \<le> i \<and> i \<le> retries \<longrightarrow> (\<exists>err. try_attempt (net i) = Inl err)"
      using "1.prems" by auto
    from "1.IH" [OF True err this]
    have ih: "snd (request_loop retries net (attempt + 1) (Some err)
                (evs @ [Attempt attempt] @ (if attempt < retries then [Backoff (500 * 2 ^ attempt)] else [])))
              = (evs @ [Attempt attempt] @ (if attempt < retries then [Backoff (500 * 2 ^ attempt)] else []))
                @ schedule retries (attempt + 1)"
      and ihe: "\<exists>e. fst (request_loop retries net (attempt + 1) (Some err)
                (evs @ [Attempt attempt] @ (if attempt < retries then [Backoff (500 * 2 ^ attempt)] else [])))
              = Inl e"
      by simp_all
    have sched: "schedule retries attempt
        = (Attempt attempt # (if attempt < retries then [Backoff (500 * 2 ^ attempt)] else []))
          @ schedule retries (attempt + 1)"
      using True by (simp add: schedule_def upt_conv_Cons del: upt_Suc)
    from True err ih ihe sched show ?thesis
      by (simp add: request_loop.simps [of retries net attempt])
  qed
qed

lemma failing_attempts:
  "\<not> response_ok status \<Longrightarrow> \<exists>err. try_attempt (Response status body) = Inl err"
  "\<exists>err. try_attempt NetworkFailure = Inl err"
  "\<exists>err. try_attempt Aborted = Inl err"
  by (simp_all add: try_attempt_def)

lemma retry_schedule:
  assumes "\<forall>i \<le> retries. net i = NetworkFailure \<or> net i = Aborted
             \<or> (\<exists>status body. net i = Response status body \<and> \<not> response_ok status)"
  shows "snd (request_promise retries net) = schedule retries 0"
    and "attempts_made (snd (request_promise retries net)) = Suc retries"
    and "sorted_wrt (<) (map (\<lambda>i. 500 * 2 ^ i :: nat) [0..<retries])"
proof -
  have "\<forall>i. 0 \<le> i \<and> i \<le> retries \<longrightarrow> (\<exists>err. try_attempt (net i) = Inl err)"
    using assms failing_attempts by metis
  from request_loop_all_fail [OF this, of None "[]"]
  show s: "snd (request_promise retries net) = schedule retries 0"
    by (simp add: request_promise_def)
  have "attempts_made (concat (map (\<lambda>i. Attempt i #
            (if i < retries then [Backoff (500 * 2 ^ i)] else [])) xs)) = length xs" for xs
    by (induction xs) (simp_all add: attempts_made_def)
  then have "attempts_made (schedule retries 0) = Suc retries"
    by (simp add: schedule_def del: upt_Suc)
  with s show "attempts_made (snd (request_promise retries net)) = Suc retries" by simp
  show "sorted_wrt (<) (map (\<lambda>i. 500 * 2 ^ i :: nat) [0..<retries])"
    by (auto simp: sorted_wrt_iff_nth_less)
qed

text \<open>
  C1. The claim: a 4xx response ends the retry loop at once, with no further attempt.
  The code retries it like any other failure: against a server that answers 404 every
  time, the default call makes three attempts and waits 500 ms and 1000 ms between them.
\<close>

theorem fetchAPI_retries_client_error:
  "request_promise MAX_RETRIES (\<lambda>_. Response 404 None) =
     (Inl (Some (HttpError 404)),
      [Attempt 0, Backoff 500, Attempt 1, Backoff 1000, Attempt 2])
   \<and> attempts_made (snd (request_promise MAX_RETRIES (\<lambda>_. Response 404 None))) = 3"
  by (simp add: request_promise_def MAX_RETRIES_def request_loop.simps try_attempt_def
      response_ok_def attempts_made_def)

section \<open>Properties of the candle synthesis\<close>

lemma insert_by_x: "insert_by (\<lambda>a b. pt_x a - pt_x b) a bs = insort_key pt_x a bs"
  by (induction bs) auto

lemma sort_by_x_sort_key: "sort_by_x points = sort_key pt_x points"
  unfolding sort_by_x_def js_sort_def sort_key_def
  by (induction points) (simp_all add: insert_by_x)

lemma enumerate_times_increasing:
  assumes "sorted (map pt_x ps)"
  shows "sorted_wrt (<) (map (\<lambda>(index, p). pt_x p div 1000 + int index * 3600 + off) (enumerate n ps))"
  using assms
proof (induction ps arbitrary: n)
  case Nil
  then show ?case by simp
next
  case (Cons p ps)
  have later: "pt_x p div 1000 + int n * 3600 + off < pt_x q div 1000 + int j * 3600 + off"
    if "(j, q) \<in> set (enumerate (Suc n) ps)" for j q
  proof -
    from that have "Suc n \<le> j" and "q \<in> set ps"
      by (auto simp: in_set_enumerate_eq)
    with Cons.prems have "pt_x p \<le> pt_x q" by auto
    then have "pt_x p div 1000 \<le> pt_x q div 1000"
      by (rule zdiv_mono1) simp
    moreover from \<open>Suc n \<le> j\<close> have "int n * 3600 < int j * 3600" by simp
    ultimately show ?thesis by linarith
  qed
  from Cons show ?case
    by (auto dest: later)
qed

lemma group_point_Inr:
  assumes "distinct (map fst groups)" and "group_point groups p = Inr groups'"
  shows "groups' = map (\<lambda>(k, qs). (k, qs @ (if pt_variant p = k then [p] else []))) groups"
proof (cases "map_of groups (pt_variant p)")
  case None
  then have "pt_variant p \<notin> fst ` set groups"
    by (simp add: map_of_eq_None_iff)
  then have "map (\<lambda>(k, qs). (k, qs @ (if pt_variant p = k then [p] else []))) groups = groups"
    by (intro map_idI) (auto simp: rev_image_eqI)
  moreover from None assms(2) have "groups' = groups"
    by (auto simp: group_point_def object_get_def Let_def split: if_splits)
  ultimately show ?thesis by simp
next
  case (Some ps)
  then have mem: "pt_variant p \<in> fst ` set groups"
    by (auto dest!: map_of_SomeD intro: rev_image_eqI)
  have same: "qs = ps" if "(pt_variant p, qs) \<in> set groups" for qs
    using that Some assms(1) by simp
  from Some mem assms(2)
  have "groups' = map (\<lambda>(k', v'). if k' = pt_variant p then (k', ps @ [p]) else (k', v')) groups"
    by (simp add: group_point_def object_get_def object_set_def Let_def)
  also have "\<dots> = map (\<lambda>(k, qs). (k, qs @ (if pt_variant p = k then [p] else []))) groups"
    by (rule map_cong) (auto dest: same)
  finally show ?thesis .
qed

lemma group_points_Inr:
  assumes "distinct (map fst groups)" and "group_points groups ps = Inr groups'"
  shows "groups' = map (\<lambda>(k, qs). (k, qs @ filter (\<lambda>p. pt_variant p = k) ps)) groups"
  using assms
proof (induction ps arbitrary: groups)
  case Nil
  then show ?case by (simp add: case_prod_unfold)
next
  case (Cons p ps)
  from Cons.prems(2) obtain g1 where g1: "group_point groups p = Inr g1"
    and rest: "group_points g1 ps = Inr groups'"
    by (auto split: sum.splits)
  from group_point_Inr [OF Cons.prems(1) g1]
  have g1_eq: "g1 = map (\<lambda>(k, qs). (k, qs @ (if pt_variant p = k then [p] else []))) groups" .
  then have "map fst g1 = map fst groups"
    by (simp add: case_prod_unfold comp_def)
  with Cons.prems(1) have "distinct (map fst g1)" by simp
  from Cons.IH [OF this rest] show ?case
    unfolding g1_eq by (auto simp: case_prod_unfold comp_def)
qed

lemma overlay_groups:
  assumes "group_points variantGroups points = Inr groups"
  shows "groups =
     [(''jumbo'', filter (\<lambda>p. pt_variant p = ''jumbo'') points),
      (''breakers_delight'', filter (\<lambda>p. pt_variant p = ''breakers_delight'') points),
      (''hobby'', filter (\<lambda>p. pt_variant p = ''hobby'') points)]"
  using group_points_Inr [OF _ assms] by (simp add: variantGroups_def)


lemma set_sort_by_x: "set (sort_by_x points) = set points"
  by (simp add: sort_by_x_sort_key)

lemma length_sort_by_x: "length (sort_by_x points) = length points"
  by (simp add: sort_by_x_sort_key)

lemma sorted_sort_by_x: "sorted (map pt_x (sort_by_x points))"
  by (simp add: sort_by_x_sort_key)

lemma variant_candles_times:
  assumes "map_of variantOffsets variantKey = Some offsetSeconds"
  shows "length (variant_candles variantKey points) = length points"
    and "i < length points \<Longrightarrow>
           c_time (variant_candles variantKey points ! i) =
             pt_x (sort_by_x points ! i) div 1000 + int i * 3600 + offsetSeconds"
    and "sorted_wrt (<) (map c_time (variant_candles variantKey points))"
proof -
  show "length (variant_candles variantKey points) = length points"
    by (simp add: variant_candles_def length_sort_by_x)
  show "c_time (variant_candles variantKey points ! i) =
          pt_x (sort_by_x points ! i) div 1000 + int i * 3600 + offsetSeconds"
    if "i < length points"
    using that assms
    by (simp add: variant_candles_def length_sort_by_x nth_enumerate_eq overlay_candle_def Let_def)
  have "map c_time (variant_candles variantKey points) =
          map (\<lambda>(index, p). pt_x p div 1000 + int index * 3600 + offsetSeconds)
            (enumerate 0 (sort_by_x points))"
    using assms by (simp add: variant_candles_def overlay_candle_def case_prod_unfold comp_def Let_def)
  then show "sorted_wrt (<) (map c_time (variant_candles variantKey points))"
    using enumerate_times_increasing [OF sorted_sort_by_x] by simp
qed

lemma single_candles_times:
  shows "length (single_candles points) = length points"
    and "i < length points \<Longrightarrow>
           c_time (single_candles points ! i) = pt_x (sort_by_x points ! i) div 1000 + int i * 3600"
    and "sorted_wrt (<) (map c_time (single_candles points))"
proof -
  show "length (single_candles points) = length points"
    by (simp add: single_candles_def length_sort_by_x)
  show "c_time (single_candles points ! i) = pt_x (sort_by_x points ! i) div 1000 + int i * 3600"
    if "i < length points"
    using that
    by (simp add: single_candles_def length_sort_by_x nth_enumerate_eq single_candle_def Let_def)
  have "map c_time (single_candles points) =
          map (\<lambda>(index, p). pt_x p div 1000 + int index * 3600 + 0)
            (enumerate 0 (sort_by_x points))"
    by (simp add: single_candles_def single_candle_def case_prod_unfold comp_def Let_def)
  then show "sorted_wrt (<) (map c_time (single_candles points))"
    using enumerate_times_increasing [OF sorted_sort_by_x, of 0 0 points] by simp
qed

lemma overlay_series_members:
  assumes "overlay_series points = Inr out" and "(variantKey, candleData) \<in> set out"
  shows "variantKey \<in> {''jumbo'', ''breakers_delight'', ''hobby''}"
    and "candleData = variant_candles variantKey (filter (\<lambda>p. pt_variant p = variantKey) points)"
    and "filter (\<lambda>p. pt_variant p = variantKey) points \<noteq> []"
proof -
  from assms(1) obtain groups where g: "group_points variantGroups points = Inr groups"
    and out: "out = map (\<lambda>(variantKey, ps). (variantKey, variant_candles variantKey ps))
                 (filter (\<lambda>(variantKey, ps). ps \<noteq> []) groups)"
    by (auto simp: overlay_series_def split: sum.splits)
  note groups = overlay_groups [OF g]
  from assms(2) show "variantKey \<in> {''jumbo'', ''breakers_delight'', ''hobby''}"
    unfolding out groups by (auto split: if_splits)
  from assms(2) show "candleData = variant_candles variantKey (filter (\<lambda>p. pt_variant p = variantKey) points)"
    unfolding out groups by (auto split: if_splits)
  from assms(2) show "filter (\<lambda>p. pt_variant p = variantKey) points \<noteq> []"
    unfolding out groups by (auto split: if_splits)
qed

lemma overlay_candle_shape:
  assumes "0 < pt_y p"
  shows "c_open (overlay_candle off i p) = pt_y p - pt_y p * 0.003"
    and "c_low (overlay_candle off i p) = pt_y p - pt_y p * 0.003"
    and "c_close (overlay_candle off i p) = pt_y p + pt_y p * 0.003"
    and "c_high (overlay_candle off i p) = pt_y p + pt_y p * 0.003"
    and "ohlc_ordered (overlay_candle off i p)"
  using assms by (simp_all add: overlay_candle_def ohlc_ordered_def Let_def)

lemma single_candle_shape:
  assumes "0 < pt_y p"
  shows "c_open (single_candle i p) = pt_y p - pt_y p * 0.005"
    and "c_low (single_candle i p) = pt_y p - pt_y p * 0.005"
    and "c_close (single_candle i p) = pt_y p + pt_y p * 0.005"
    and "c_high (single_candle i p) = pt_y p + pt_y p * 0.005"
    and "ohlc_ordered (single_candle i p)"
  using assms by (simp_all add: single_candle_def ohlc_ordered_def Let_def)

text \<open>
  C4. In the overlay, the series of a variant holds, for the points of that variant sorted
  by \<open>x\<close> (stably, so ties keep the input order), at index \<open>i\<close> the time
  \<open>floor(x / 1000) + i * 3600 + offset\<close> with the offsets 0, 300 and 600; these times
  are strictly increasing. The single view does the same over all points, without offset.
\<close>

theorem synthetic_time:
  assumes "overlay_series points = Inr out" and "(variantKey, candleData) \<in> set out"
  shows "(\<exists>offsetSeconds sorted.
            map_of [(''jumbo'', 0), (''breakers_delight'', 300), (''hobby'', 600)] variantKey
              = Some offsetSeconds
          \<and> sorted = sort_by_x (filter (\<lambda>p. pt_variant p = variantKey) points)
          \<and> sorted = sort_key pt_x (filter (\<lambda>p. pt_variant p = variantKey) points)
          \<and> length candleData = length sorted
          \<and> (\<forall>i < length sorted.
                c_time (candleData ! i) = pt_x (sorted ! i) div 1000 + int i * 3600 + offsetSeconds)
          \<and> sorted_wrt (<) (map c_time candleData))
       \<and> length (single_candles points) = length points
       \<and> (\<forall>i < length points.
             c_time (single_candles points ! i) = pt_x (sort_by_x points ! i) div 1000 + int i * 3600)
       \<and> sorted_wrt (<) (map c_time (single_candles points))"
proof -
  note m = overlay_series_members [OF assms]
  from m(1) obtain offsetSeconds where off: "map_of variantOffsets variantKey = Some offsetSeconds"
    by (auto simp: variantOffsets_def)
  let ?ps = "filter (\<lambda>p. pt_variant p = variantKey) points"
  have "\<exists>offsetSeconds sorted.
            map_of [(''jumbo'', 0), (''breakers_delight'', 300), (''hobby'', 600)] variantKey
              = Some offsetSeconds
          \<and> sorted = sort_by_x ?ps \<and> sorted = sort_key pt_x ?ps
          \<and> length candleData = length sorted
          \<and> (\<forall>i < length sorted.
                c_time (candleData ! i) = pt_x (sorted ! i) div 1000 + int i * 3600 + offsetSeconds)
          \<and> sorted_wrt (<) (map c_time candleData)"
    using off variant_candles_times [OF off, where points = ?ps] m(2)
    by (auto simp: length_sort_by_x sort_by_x_sort_key variantOffsets_def)
  then show ?thesis
    using single_candles_times [where points = points] by simp
qed

theorem synthetic_time_witness:
  "overlay_series
     [\<lparr>pt_x = 2000, pt_y = 110, pt_variant = ''jumbo'', pt_date = ''2025-01-02''\<rparr>,
      \<lparr>pt_x = 1000, pt_y = 200, pt_variant = ''breakers_delight'', pt_date = ''2025-01-01''\<rparr>,
      \<lparr>pt_x = 1000, pt_y = 100, pt_variant = ''jumbo'', pt_date = ''2025-01-01''\<rparr>] =
   Inr [(''jumbo'',
          [\<lparr>c_time = 1, c_open = 997 / 10, c_high = 1003 / 10, c_low = 997 / 10, c_close = 1003 / 10\<rparr>,
           \<lparr>c_time = 3602, c_open = 10967 / 100, c_high = 11033 / 100, c_low = 10967 / 100,
              c_close = 11033 / 100\<rparr>]),
        (''breakers_delight'',
          [\<lparr>c_time = 301, c_open = 1994 / 10, c_high = 2006 / 10, c_low = 1994 / 10,
              c_close = 2006 / 10\<rparr>])]
   \<and> sorted_wrt (<) (map c_time
          [\<lparr>c_time = 1, c_open = 997 / 10, c_high = 1003 / 10, c_low = 997 / 10, c_close = 1003 / 10\<rparr>,
           \<lparr>c_time = 3602, c_open = 10967 / 100, c_high = 11033 / 100, c_low = 10967 / 100,
              c_close = 11033 / 100\<rparr>])"
  (is "?series = Inr ?out \<and> sorted_wrt (<) (map c_time ?jumbo)")
proof -
  have series: "?series = Inr ?out"
    by (simp add: overlay_series_def variantGroups_def group_point_def object_get_def
        object_set_def variant_candles_def variantOffsets_def sort_by_x_def js_sort_def
        overlay_candle_def enumerate_eq_zip upt_rec Let_def)
  have member: "(''jumbo'', ?jumbo) \<in> set ?out" by simp
  from synthetic_time [OF series member] have "sorted_wrt (<) (map c_time ?jumbo)"
    by blast
  with series show ?thesis by blast
qed

lemma variant_candles_nth:
  assumes "i < length points"
  shows "variant_candles variantKey points ! i
           = overlay_candle (the (map_of variantOffsets variantKey)) i (sort_by_x points ! i)"
  using assms by (simp add: variant_candles_def Let_def length_sort_by_x nth_enumerate_eq)

lemma single_candles_nth:
  assumes "i < length points"
  shows "single_candles points ! i = single_candle i (sort_by_x points ! i)"
  using assms by (simp add: single_candles_def Let_def length_sort_by_x nth_enumerate_eq)

lemma overlay_candle_of_price: "candle_of_price 0.003 (pt_y p) (overlay_candle off i p)"
  by (simp add: candle_of_price_def overlay_candle_def Let_def)

lemma single_candle_of_price: "candle_of_price 0.005 (pt_y p) (single_candle i p)"
  by (simp add: candle_of_price_def single_candle_def Let_def)

lemma mset_sort_by_x: "mset (sort_by_x points) = mset points"
  by (simp add: sort_by_x_sort_key)

text \<open>
  C7. The series of a variant and the single view have one candle per input point: the
  candle at index \<open>i\<close> is built from the price of the \<open>i\<close>-th point of the input sorted
  by \<open>x\<close> (a rearrangement of the input), with \<open>open = low = price - v\<close> and
  \<open>close = high = price + v\<close>, where \<open>v = price * 0.003\<close> in the overlay and
  \<open>v = price * 0.005\<close> in the single view. So every input point with a positive price
  has its candle, and that candle keeps \<open>high \<ge> open \<ge> low\<close> and \<open>high \<ge> close \<ge> low\<close>.
\<close>

theorem candle_bounds:
  "length (variant_candles variantKey points) = length points
   \<and> length (single_candles points) = length points
   \<and> mset (sort_by_x points) = mset points
   \<and> (\<forall>i < length points.
         candle_of_price 0.003 (pt_y (sort_by_x points ! i)) (variant_candles variantKey points ! i)
       \<and> candle_of_price 0.005 (pt_y (sort_by_x points ! i)) (single_candles points ! i)
       \<and> (0 < pt_y (sort_by_x points ! i) \<longrightarrow>
             ohlc_ordered (variant_candles variantKey points ! i)
           \<and> ohlc_ordered (single_candles points ! i)))
   \<and> (\<forall>p \<in> set points. 0 < pt_y p \<longrightarrow>
         (\<exists>i < length points. sort_by_x points ! i = p
           \<and> candle_of_price 0.003 (pt_y p) (variant_candles variantKey points ! i)
           \<and> ohlc_ordered (variant_candles variantKey points ! i)
           \<and> candle_of_price 0.005 (pt_y p) (single_candles points ! i)
           \<and> ohlc_ordered (single_candles points ! i)))"
proof -
  have at: "candle_of_price 0.003 (pt_y (sort_by_x points ! i)) (variant_candles variantKey points ! i)
       \<and> candle_of_price 0.005 (pt_y (sort_by_x points ! i)) (single_candles points ! i)
       \<and> (0 < pt_y (sort_by_x points ! i) \<longrightarrow>
             ohlc_ordered (variant_candles variantKey points ! i)
           \<and> ohlc_ordered (single_candles points ! i))"
    if "i < length points" for i
    using variant_candles_nth [OF that, of variantKey] single_candles_nth [OF that]
      overlay_candle_of_price single_candle_of_price
      overlay_candle_shape(5) single_candle_shape(5)
    by simp
  have each: "\<exists>i < length points. sort_by_x points ! i = p
           \<and> candle_of_price 0.003 (pt_y p) (variant_candles variantKey points ! i)
           \<and> ohlc_ordered (variant_candles variantKey points ! i)
           \<and> candle_of_price 0.005 (pt_y p) (single_candles points ! i)
           \<and> ohlc_ordered (single_candles points ! i)"
    if p: "p \<in> set points" and pos: "0 < pt_y p" for p
  proof -
    from p have "p \<in> set (sort_by_x points)" by (simp add: set_sort_by_x)
    then obtain i where i: "i < length points" and pi: "sort_by_x points ! i = p"
      by (auto simp: in_set_conv_nth length_sort_by_x)
    from at [OF i] pi pos i show ?thesis by auto
  qed
  from at each show ?thesis
    by (simp add: variant_candles_times(1) [of variantKey] single_candles_times(1) mset_sort_by_x
        variant_candles_def single_candles_def length_sort_by_x Let_def)
qed

theorem candle_bounds_witness:
  "sort_by_x
     [\<lparr>pt_x = 2000, pt_y = 110, pt_variant = ''jumbo'', pt_date = ''2025-01-02''\<rparr>,
      \<lparr>pt_x = 1000, pt_y = 100, pt_variant = ''jumbo'', pt_date = ''2025-01-01''\<rparr>] ! 1
     = \<lparr>pt_x = 2000, pt_y = 110, pt_variant = ''jumbo'', pt_date = ''2025-01-02''\<rparr>
   \<and> candle_of_price 0.003 110 (variant_candles ''jumbo''
     [\<lparr>pt_x = 2000, pt_y = 110, pt_variant = ''jumbo'', pt_date = ''2025-01-02''\<rparr>,
      \<lparr>pt_x = 1000, pt_y = 100, pt_variant = ''jumbo'', pt_date = ''2025-01-01''\<rparr>] ! 1)
   \<and> ohlc_ordered (variant_candles ''jumbo''
     [\<lparr>pt_x = 2000, pt_y = 110, pt_variant = ''jumbo'', pt_date = ''2025-01-02''\<rparr>,
      \<lparr>pt_x = 1000, pt_y = 100, pt_variant = ''jumbo'', pt_date = ''2025-01-01''\<rparr>] ! 1)
   \<and> candle_of_price 0.005 110 (single_candles
     [\<lparr>pt_x = 2000, pt_y = 110, pt_variant = ''jumbo'', pt_date = ''2025-01-02''\<rparr>,
      \<lparr>pt_x = 1000, pt_y = 100, pt_variant = ''jumbo'', pt_date = ''2025-01-01''\<rparr>] ! 1)
   \<and> ohlc_ordered (single_candles
     [\<lparr>pt_x = 2000, pt_y = 110, pt_variant = ''jumbo'', pt_date = ''2025-01-02''\<rparr>,
      \<lparr>pt_x = 1000, pt_y = 100, pt_variant = ''jumbo'', pt_date = ''2025-01-01''\<rparr>] ! 1)"
  (is "sort_by_x ?points ! 1 = ?p \<and> _")
proof -
  have sorted: "sort_by_x ?points ! 1 = ?p"
    by (simp add: sort_by_x_def js_sort_def)
  have index: "(1::nat) < length ?points" by simp
  from candle_bounds [of "''jumbo''" ?points] index
  have "candle_of_price 0.003 (pt_y (sort_by_x ?points ! 1)) (variant_candles ''jumbo'' ?points ! 1)
       \<and> candle_of_price 0.005 (pt_y (sort_by_x ?points ! 1)) (single_candles ?points ! 1)
       \<and> (0 < pt_y (sort_by_x ?points ! 1) \<longrightarrow>
             ohlc_ordered (variant_candles ''jumbo'' ?points ! 1)
           \<and> ohlc_ordered (single_candles ?points ! 1))"
    by blast
  with sorted show ?thesis by simp
qed

section \<open>Properties of the response cache and of coalescing\<close>

lemma coalesced_pending:
  assumes "coalesced s" and "pendingRequests s endpoint = Some p"
  shows "p < length (issued s)" and "fst (issued s ! p) = endpoint" and "settled s p = None"
  using assms unfolding coalesced_def by blast+

lemma coalesced_unsettled:
  assumes "coalesced s" and "p < length (issued s)" and "settled s p = None"
  shows "pendingRequests s (fst (issued s ! p)) = Some p"
  using assms unfolding coalesced_def by blast

lemma coalesced_settled:
  assumes "coalesced s" and "settled s p = Some r"
  shows "p < length (issued s)"
  using assms unfolding coalesced_def by blast

lemma coalesced_initial: "coalesced initial_api_state"
  by (simp add: coalesced_def initial_api_state_def)

lemma check_cache_fields:
  assumes "check_cache now k skipCache s = (r, s1)"
  shows "pendingRequests s1 = pendingRequests s" "issued s1 = issued s" "settled s1 = settled s"
  using assms by (auto simp: check_cache_def Let_def split: if_splits)

lemma coalesced_check_cache:
  assumes "coalesced s" and "check_cache now k skipCache s = (r, s1)"
  shows "coalesced s1"
  using assms(1) check_cache_fields [OF assms(2)] by (simp add: coalesced_def)

lemma coalesced_register:
  assumes co: "coalesced s" and none: "pendingRequests s k = None"
  shows "coalesced (s\<lparr>issued := issued s @ [(k, retries)],
                       pendingRequests := (pendingRequests s)(k \<mapsto> length (issued s))\<rparr>)"
    (is "coalesced ?s")
proof -
  have fresh: "settled s (length (issued s)) = None"
  proof (cases "settled s (length (issued s))")
    case (Some r)
    from coalesced_settled [OF co Some] show ?thesis by simp
  qed simp
  have a: "p < length (issued ?s) \<and> fst (issued ?s ! p) = endpoint \<and> settled ?s p = None"
    if "pendingRequests ?s endpoint = Some p" for endpoint p
  proof (cases "endpoint = k")
    case True
    with that have "p = length (issued s)" by simp
    with True fresh show ?thesis by simp
  next
    case False
    with that have "pendingRequests s endpoint = Some p" by simp
    from coalesced_pending [OF co this] show ?thesis by (simp add: nth_append)
  qed
  have b: "pendingRequests ?s (fst (issued ?s ! p)) = Some p"
    if "p < length (issued ?s)" and "settled ?s p = None" for p
  proof (cases "p < length (issued s)")
    case True
    with that have "pendingRequests s (fst (issued s ! p)) = Some p"
      using coalesced_unsettled [OF co] by simp
    with none True show ?thesis by (auto simp: nth_append)
  next
    case False
    with that have "p = length (issued s)" by simp
    then show ?thesis by simp
  qed
  have c: "p < length (issued ?s)" if "settled ?s p \<noteq> None" for p
    using that coalesced_settled [OF co, of p] by (auto simp: less_Suc_eq)
  from a b c show ?thesis unfolding coalesced_def by blast
qed

lemma coalesced_fetchAPI:
  assumes "coalesced s" and "fetchAPI now endpoint skipCache retries s = (r, s1)"
  shows "coalesced s1"
proof -
  obtain c s0 where cc: "check_cache now endpoint skipCache s = (c, s0)"
    by (cases "check_cache now endpoint skipCache s")
  note co0 = coalesced_check_cache [OF assms(1) cc]
  show ?thesis
  proof (cases c)
    case (Some d)
    with assms(2) cc co0 show ?thesis by (simp add: fetchAPI_def)
  next
    case None
    show ?thesis
    proof (cases "pendingRequests s0 endpoint")
      case (Some p)
      with None assms(2) cc co0 show ?thesis by (simp add: fetchAPI_def)
    next
      case pnone: None
      with None assms(2) cc have "s1 = s0\<lparr>issued := issued s0 @ [(endpoint, retries)],
          pendingRequests := (pendingRequests s0)(endpoint \<mapsto> length (issued s0))\<rparr>"
        by (simp add: fetchAPI_def Let_def)
      with coalesced_register [OF co0 pnone] show ?thesis by simp
    qed
  qed
qed

lemma settle_request_fields:
  assumes "p < length (issued s)" and "settled s p = None" and "issued s ! p = (endpoint, retries)"
  shows "issued (settle_request now p net s) = issued s"
    and "settled (settle_request now p net s) = (settled s)(p \<mapsto> fst (request_promise retries net))"
    and "pendingRequests (settle_request now p net s) = (pendingRequests s)(endpoint := None)"
  using assms by (simp_all add: settle_request_def Let_def)

lemma coalesced_settle:
  assumes co: "coalesced s"
  shows "coalesced (settle_request now p net s)"
proof (cases "p < length (issued s) \<and> settled s p = None")
  case False
  then show ?thesis using assms by (auto simp: settle_request_def)
next
  case True
  obtain endpoint retries where ip: "issued s ! p = (endpoint, retries)"
    by (cases "issued s ! p")
  from True have lt: "p < length (issued s)" and un: "settled s p = None" by simp_all
  note f = settle_request_fields [OF lt un ip, of now net]
  let ?s = "settle_request now p net s"
  from coalesced_unsettled [OF co lt un] ip have pend: "pendingRequests s endpoint = Some p"
    by simp
  have a: "q < length (issued ?s) \<and> fst (issued ?s ! q) = e \<and> settled ?s q = None"
    if "pendingRequests ?s e = Some q" for e q
  proof -
    from that have ne: "e \<noteq> endpoint" and pq: "pendingRequests s e = Some q"
      unfolding f by (auto split: if_splits)
    note q = coalesced_pending [OF co pq]
    from q(2) ne ip have "q \<noteq> p" by auto
    with q show ?thesis unfolding f by simp
  qed
  have b: "pendingRequests ?s (fst (issued ?s ! q)) = Some q"
    if "q < length (issued ?s)" and "settled ?s q = None" for q
  proof -
    from that have qp: "q \<noteq> p" and qlt: "q < length (issued s)" and qun: "settled s q = None"
      unfolding f by (auto split: if_splits)
    from coalesced_unsettled [OF co qlt qun]
    have pq: "pendingRequests s (fst (issued s ! q)) = Some q" .
    with pend qp have "fst (issued s ! q) \<noteq> endpoint" by auto
    with pq show ?thesis unfolding f by simp
  qed
  have c: "q < length (issued ?s)" if "settled ?s q \<noteq> None" for q
    using that lt coalesced_settled [OF co, of q] unfolding f by (auto split: if_splits)
  from a b c show ?thesis unfolding coalesced_def by blast
qed

lemma coalesced_run:
  assumes "coalesced s" and "run evs s = (rs, s1)"
  shows "coalesced s1"
  using assms
proof (induction evs s arbitrary: rs s1 rule: run.induct)
  case (1 s)
  then show ?case by simp
next
  case (2 now endpoint skipCache retries evs s)
  obtain r s0 where f: "fetchAPI now endpoint skipCache retries s = (r, s0)"
    by (cases "fetchAPI now endpoint skipCache retries s")
  obtain rs0 s2 where r: "run evs s0 = (rs0, s2)" by (cases "run evs s0")
  from "2.prems"(2) f r have "s1 = s2" by simp
  with "2.IH" [OF f [symmetric] coalesced_fetchAPI [OF "2.prems"(1) f] r] show ?case by simp
next
  case (3 now p net evs s)
  from "3.IH" [OF coalesced_settle [OF "3.prems"(1)]] "3.prems"(2) show ?case by simp
qed

lemma filter_eq_single: "p < n \<Longrightarrow> filter (\<lambda>q. q = p) [0..<n] = [p]"
  by (induction n) (auto simp: less_Suc_eq)

lemma in_flight_pending:
  assumes co: "coalesced s"
  shows "in_flight s endpoint = (case pendingRequests s endpoint of None \<Rightarrow> [] | Some p \<Rightarrow> [p])"
proof (cases "pendingRequests s endpoint")
  case None
  have "\<not> (fst (issued s ! p) = endpoint \<and> settled s p = None)" if lt: "p < length (issued s)" for p
  proof
    assume h: "fst (issued s ! p) = endpoint \<and> settled s p = None"
    then have "pendingRequests s (fst (issued s ! p)) = Some p"
      using coalesced_unsettled [OF co lt] by blast
    with h None show False by simp
  qed
  then have "in_flight s endpoint = []"
    unfolding in_flight_def by (auto simp: filter_empty_conv)
  with None show ?thesis by simp
next
  case (Some p)
  note p = coalesced_pending [OF co Some]
  have "(fst (issued s ! q) = endpoint \<and> settled s q = None) \<longleftrightarrow> q = p"
    if lt: "q < length (issued s)" for q
  proof
    assume h: "fst (issued s ! q) = endpoint \<and> settled s q = None"
    then have "pendingRequests s (fst (issued s ! q)) = Some q"
      using coalesced_unsettled [OF co lt] by blast
    with h Some show "q = p" by simp
  next
    assume "q = p"
    with p show "fst (issued s ! q) = endpoint \<and> settled s q = None" by simp
  qed
  then have "in_flight s endpoint = filter (\<lambda>q. q = p) [0..<length (issued s)]"
    unfolding in_flight_def by (intro filter_cong) auto
  with filter_eq_single [OF p(1)] Some show ?thesis by simp
qed


lemma check_cache_not_fresh:
  assumes "skipCache \<or> \<not> fresh s endpoint now"
  shows "\<exists>s0. check_cache now endpoint skipCache s = (None, s0)
           \<and> pendingRequests s0 = pendingRequests s \<and> issued s0 = issued s
           \<and> settled s0 = settled s
           \<and> (cache s0 endpoint = cache s endpoint \<or> cache s0 endpoint = None)"
  using assms by (auto simp: check_cache_def fresh_def Let_def split: option.splits)

lemma fetchAPI_joins:
  assumes "skipCache \<or> \<not> fresh s endpoint now" and "pendingRequests s endpoint = Some p"
  shows "\<exists>s1. fetchAPI now endpoint skipCache retries s = (Promise p, s1)
           \<and> pendingRequests s1 = pendingRequests s \<and> issued s1 = issued s
           \<and> settled s1 = settled s
           \<and> (cache s1 endpoint = cache s endpoint \<or> cache s1 endpoint = None)"
proof -
  from check_cache_not_fresh [OF assms(1)] obtain s0
    where "check_cache now endpoint skipCache s = (None, s0)"
      and "pendingRequests s0 = pendingRequests s" and "issued s0 = issued s"
      and "settled s0 = settled s"
      and "cache s0 endpoint = cache s endpoint \<or> cache s0 endpoint = None"
    by blast
  with assms(2) show ?thesis by (simp add: fetchAPI_def)
qed

lemma fetchAPI_starts:
  assumes "skipCache \<or> \<not> fresh s endpoint now" and "pendingRequests s endpoint = None"
  shows "\<exists>s1. fetchAPI now endpoint skipCache retries s = (Promise (length (issued s)), s1)
           \<and> pendingRequests s1 = (pendingRequests s)(endpoint \<mapsto> length (issued s))
           \<and> issued s1 = issued s @ [(endpoint, retries)]
           \<and> settled s1 = settled s
           \<and> (cache s1 endpoint = cache s endpoint \<or> cache s1 endpoint = None)"
proof -
  from check_cache_not_fresh [OF assms(1)] obtain s0
    where "check_cache now endpoint skipCache s = (None, s0)"
      and "pendingRequests s0 = pendingRequests s" and "issued s0 = issued s"
      and "settled s0 = settled s"
      and "cache s0 endpoint = cache s endpoint \<or> cache s0 endpoint = None"
    by blast
  with assms(2) show ?thesis by (simp add: fetchAPI_def Let_def)
qed

lemma not_fresh_mono:
  assumes "cache s1 endpoint = cache s endpoint \<or> cache s1 endpoint = None"
    and "skipCache \<or> \<not> fresh s endpoint now"
  shows "skipCache \<or> \<not> fresh s1 endpoint now"
  using assms by (auto simp: fresh_def split: option.splits)

lemma calls_join:
  assumes "pendingRequests s endpoint = Some p"
    and "\<forall>(now, skipCache, retries) \<in> set args. skipCache \<or> \<not> fresh s endpoint now"
    and "run (concurrent_calls endpoint args) s = (rs, s1)"
  shows "rs = replicate (length args) (Promise p) \<and> pendingRequests s1 = pendingRequests s
         \<and> issued s1 = issued s \<and> settled s1 = settled s"
  using assms
proof (induction args arbitrary: s rs s1)
  case Nil
  then show ?case by (simp add: concurrent_calls_def)
next
  case (Cons a args)
  obtain now skipCache retries where a: "a = (now, skipCache, retries)" by (cases a)
  from Cons.prems(2) a have stale: "skipCache \<or> \<not> fresh s endpoint now" by simp
  from fetchAPI_joins [OF stale Cons.prems(1), of retries] obtain s0
    where f: "fetchAPI now endpoint skipCache retries s = (Promise p, s0)"
      and same: "pendingRequests s0 = pendingRequests s" "issued s0 = issued s"
        "settled s0 = settled s"
      and c: "cache s0 endpoint = cache s endpoint \<or> cache s0 endpoint = None"
    by blast
  obtain rs0 s2 where r: "run (concurrent_calls endpoint args) s0 = (rs0, s2)"
    by (cases "run (concurrent_calls endpoint args) s0")
  from Cons.prems(3) a f r have rs: "rs = Promise p # rs0" and s1: "s1 = s2"
    by (simp_all add: concurrent_calls_def)
  have "\<forall>(now, skipCache, retries) \<in> set args. skipCache \<or> \<not> fresh s0 endpoint now"
  proof (intro ballI)
    fix b assume b: "b \<in> set args"
    obtain now' skip' retries' where b_eq: "b = (now', skip', retries')" by (cases b)
    from Cons.prems(2) b b_eq have "skip' \<or> \<not> fresh s endpoint now'" by auto
    from not_fresh_mono [OF c this] b_eq
    show "case b of (now, skipCache, retries) \<Rightarrow> skipCache \<or> \<not> fresh s0 endpoint now"
      by simp
  qed
  from Cons.IH [OF _ this r] Cons.prems(1) same rs s1 show ?case by simp
qed


lemma in_flight_le_one:
  assumes "coalesced s"
  shows "length (in_flight s k) \<le> 1"
  by (simp add: in_flight_pending [OF assms] split: option.splits)

lemma calls_coalesce:
  assumes co: "coalesced s" and nonempty: "args \<noteq> []"
    and stale: "\<forall>(now, skipCache, retries) \<in> set args. skipCache \<or> \<not> fresh s endpoint now"
    and run: "run (concurrent_calls endpoint args) s = (rs, s1)"
  shows "\<exists>p. rs = replicate (length args) (Promise p)
           \<and> pendingRequests s1 endpoint = Some p
           \<and> (pendingRequests s endpoint = None \<longrightarrow>
                 p = length (issued s) \<and> length (issued s1) = Suc (length (issued s)))
           \<and> (pendingRequests s endpoint \<noteq> None \<longrightarrow> issued s1 = issued s)"
proof (cases "pendingRequests s endpoint")
  case (Some p)
  from calls_join [OF Some stale run] Some show ?thesis by auto
next
  case None
  from nonempty obtain a args' where args: "args = a # args'" by (cases args) auto
  obtain now skipCache retries where a: "a = (now, skipCache, retries)" by (cases a)
  from stale args a have st: "skipCache \<or> \<not> fresh s endpoint now" by simp
  from fetchAPI_starts [OF st None, of retries] obtain s0
    where f: "fetchAPI now endpoint skipCache retries s = (Promise (length (issued s)), s0)"
      and pend: "pendingRequests s0 = (pendingRequests s)(endpoint \<mapsto> length (issued s))"
      and iss: "issued s0 = issued s @ [(endpoint, retries)]"
      and c: "cache s0 endpoint = cache s endpoint \<or> cache s0 endpoint = None"
    by blast
  obtain rs0 s2 where r: "run (concurrent_calls endpoint args') s0 = (rs0, s2)"
    by (cases "run (concurrent_calls endpoint args') s0")
  from run args a f r have rs: "rs = Promise (length (issued s)) # rs0" and s1: "s1 = s2"
    by (simp_all add: concurrent_calls_def)
  have stale0: "\<forall>(now, skipCache, retries) \<in> set args'. skipCache \<or> \<not> fresh s0 endpoint now"
  proof (intro ballI)
    fix b assume b: "b \<in> set args'"
    obtain now' skip' retries' where b_eq: "b = (now', skip', retries')" by (cases b)
    from stale args b b_eq have "skip' \<or> \<not> fresh s endpoint now'" by auto
    from not_fresh_mono [OF c this] b_eq
    show "case b of (now, skipCache, retries) \<Rightarrow> skipCache \<or> \<not> fresh s0 endpoint now"
      by simp
  qed
  from pend have p0: "pendingRequests s0 endpoint = Some (length (issued s))" by simp
  from calls_join [OF p0 stale0 r] rs s1 args pend iss None show ?thesis by simp
qed

text \<open>
  C2. In every state the event loop can reach, an endpoint has at most one request in
  flight. When \<open>K \<ge> 1\<close> calls for one endpoint are made with no settlement in between
  and none of them is served from the cache, all of them hold the same request promise,
  which is the only request in flight for the endpoint: a new one if none was pending, and
  then the only one issued. When it settles, the pending entry is gone and every caller
  has received the same value, the payload or the last error.
\<close>

theorem single_flight:
  assumes reach: "run evs initial_api_state = (rs0, s)"
    and nonempty: "args \<noteq> []"
    and stale: "\<forall>(now, skipCache, retries) \<in> set args. skipCache \<or> \<not> fresh s endpoint now"
    and run: "run (concurrent_calls endpoint args) s = (rs, s1)"
  shows "(\<forall>k. length (in_flight s k) \<le> 1) \<and> (\<forall>k. length (in_flight s1 k) \<le> 1)
       \<and> (\<exists>p. rs = replicate (length args) (Promise p)
            \<and> in_flight s1 endpoint = [p]
            \<and> (pendingRequests s endpoint = None \<longrightarrow>
                  p = length (issued s) \<and> length (issued s1) = Suc (length (issued s)))
            \<and> (pendingRequests s endpoint \<noteq> None \<longrightarrow> issued s1 = issued s)
            \<and> (\<forall>now net.
                  pendingRequests (settle_request now p net s1) endpoint = None
                \<and> in_flight (settle_request now p net s1) endpoint = []
                \<and> (\<exists>result. \<forall>r \<in> set rs. received (settle_request now p net s1) r = Some result)))"
proof -
  note co = coalesced_run [OF coalesced_initial reach]
  note co1 = coalesced_run [OF co run]
  from calls_coalesce [OF co nonempty stale run] obtain p
    where rs: "rs = replicate (length args) (Promise p)"
      and pend: "pendingRequests s1 endpoint = Some p"
      and new: "pendingRequests s endpoint = None \<longrightarrow>
                  p = length (issued s) \<and> length (issued s1) = Suc (length (issued s))"
      and old: "pendingRequests s endpoint \<noteq> None \<longrightarrow> issued s1 = issued s"
    by (elim exE conjE)
  note p = coalesced_pending [OF co1 pend]
  from in_flight_pending [OF co1, of endpoint] pend have fl: "in_flight s1 endpoint = [p]"
    by simp
  obtain e retries where ip: "issued s1 ! p = (e, retries)" by (cases "issued s1 ! p")
  with p(2) have ip': "issued s1 ! p = (endpoint, retries)" by simp
  note f = settle_request_fields [OF p(1) p(3) ip']
  have gone: "pendingRequests (settle_request now p net s1) endpoint = None" for now net
    using f(3) [of now net] by simp
  have none: "in_flight (settle_request now p net s1) endpoint = []" for now net
    using in_flight_pending [OF coalesced_settle [OF co1], of now p net endpoint] gone [of now net]
    by simp
  have same: "\<exists>result. \<forall>r \<in> set rs. received (settle_request now p net s1) r = Some result"
    for now net
  proof -
    have "\<forall>r \<in> set rs. received (settle_request now p net s1) r
            = Some (fst (request_promise retries net))"
      unfolding rs using f(2) [of now net] by (simp add: received_def)
    then show ?thesis by (rule exI)
  qed
  have "rs = replicate (length args) (Promise p)
            \<and> in_flight s1 endpoint = [p]
            \<and> (pendingRequests s endpoint = None \<longrightarrow>
                  p = length (issued s) \<and> length (issued s1) = Suc (length (issued s)))
            \<and> (pendingRequests s endpoint \<noteq> None \<longrightarrow> issued s1 = issued s)
            \<and> (\<forall>now net.
                  pendingRequests (settle_request now p net s1) endpoint = None
                \<and> in_flight (settle_request now p net s1) endpoint = []
                \<and> (\<exists>result. \<forall>r \<in> set rs. received (settle_request now p net s1) r = Some result))"
    by (intro conjI allI) (rule rs fl new old gone none same)+
  then have "\<exists>p. rs = replicate (length args) (Promise p)
            \<and> in_flight s1 endpoint = [p]
            \<and> (pendingRequests s endpoint = None \<longrightarrow>
                  p = length (issued s) \<and> length (issued s1) = Suc (length (issued s)))
            \<and> (pendingRequests s endpoint \<noteq> None \<longrightarrow> issued s1 = issued s)
            \<and> (\<forall>now net.
                  pendingRequests (settle_request now p net s1) endpoint = None
                \<and> in_flight (settle_request now p net s1) endpoint = []
                \<and> (\<exists>result. \<forall>r \<in> set rs. received (settle_request now p net s1) r = Some result))"
    by (rule exI)
  moreover have "\<forall>k. length (in_flight s k) \<le> 1"
    using in_flight_le_one [OF co] by (intro allI)
  moreover have "\<forall>k. length (in_flight s1 k) \<le> 1"
    using in_flight_le_one [OF co1] by (intro allI)
  ultimately show ?thesis by (intro conjI)
qed

theorem single_flight_witness:
  "\<exists>p. fst (run (concurrent_calls ''/summary'' [(0, False, 2), (5, False, 2), (7, True, 2)])
              initial_api_state) = replicate 3 (Promise p)
      \<and> in_flight (snd (run (concurrent_calls ''/summary'' [(0, False, 2), (5, False, 2), (7, True, 2)])
              initial_api_state)) ''/summary'' = [p]"
  (is "\<exists>p. fst (run ?calls _) = _ \<and> _")
proof -
  have reach: "run [] initial_api_state = ([], initial_api_state)" by simp
  have nonempty: "[(0::int, False, 2::nat), (5, False, 2), (7, True, 2)] \<noteq> []" by simp
  have stale: "\<forall>(now, skipCache, retries) \<in> set [(0::int, False, 2::nat), (5, False, 2), (7, True, 2)].
      skipCache \<or> \<not> fresh initial_api_state ''/summary'' now"
    by (simp add: fresh_def initial_api_state_def)
  have run: "run ?calls initial_api_state
      = (fst (run ?calls initial_api_state), snd (run ?calls initial_api_state))"
    by simp
  from single_flight [OF reach nonempty stale run] obtain p
    where "fst (run ?calls initial_api_state)
             = replicate (length [(0::int, False, 2::nat), (5, False, 2), (7, True, 2)]) (Promise p)"
      and "in_flight (snd (run ?calls initial_api_state)) ''/summary'' = [p]"
    by (elim conjE exE)
  then show ?thesis
    by (intro exI [of _ p]) (simp add: numeral_3_eq_3)
qed

lemma uncached_fetchAPI:
  assumes "uncached_while_pending s" and "fetchAPI now endpoint False retries s = (r, s1)"
  shows "uncached_while_pending s1"
  using assms
  by (auto simp: uncached_while_pending_def fetchAPI_def check_cache_def Let_def
      split: if_splits option.splits)

lemma uncached_settle:
  assumes "uncached_while_pending s"
  shows "uncached_while_pending (settle_request now p net s)"
  using assms
  by (auto simp: uncached_while_pending_def settle_request_def Let_def
      split: if_splits prod.splits sum.splits)

lemma uncached_run:
  assumes "uncached_while_pending s" and "without_bypass evs" and "run evs s = (rs, s1)"
  shows "uncached_while_pending s1"
  using assms
proof (induction evs s arbitrary: rs s1 rule: run.induct)
  case (1 s)
  then show ?case by simp
next
  case (2 now endpoint skipCache retries evs s)
  from "2.prems"(2) have skip: "\<not> skipCache" and rest: "without_bypass evs" by simp_all
  obtain r s0 where f: "fetchAPI now endpoint skipCache retries s = (r, s0)"
    by (cases "fetchAPI now endpoint skipCache retries s")
  obtain rs0 s2 where r: "run evs s0 = (rs0, s2)" by (cases "run evs s0")
  from "2.prems"(3) f r have "s1 = s2" by simp
  moreover from uncached_fetchAPI [of s now endpoint retries r s0] "2.prems"(1) f skip
  have "uncached_while_pending s0" by simp
  ultimately show ?case using "2.IH" [OF f [symmetric] _ rest r] by simp
next
  case (3 now p net evs s)
  from "3.IH" [OF uncached_settle [OF "3.prems"(1)]] "3.prems"(2,3) show ?case by simp
qed

lemma cache_ttl_without_bypass:
  assumes "without_bypass evs" and "run evs initial_api_state = (rs, s)"
    and "cache s endpoint = Some entry" and "cacheTimeout \<le> now - ce_timestamp entry"
  shows "fst (fetchAPI now endpoint False retries s) = Promise (length (issued s))"
    and "issued (snd (fetchAPI now endpoint False retries s)) = issued s @ [(endpoint, retries)]"
    and "cache (snd (fetchAPI now endpoint False retries s)) endpoint = None"
proof -
  have "uncached_while_pending initial_api_state"
    by (simp add: uncached_while_pending_def initial_api_state_def)
  from uncached_run [OF this assms(1,2)] assms(3) have none: "pendingRequests s endpoint = None"
    by (auto simp: uncached_while_pending_def)
  with assms(3,4)
  show "fst (fetchAPI now endpoint False retries s) = Promise (length (issued s))"
    and "issued (snd (fetchAPI now endpoint False retries s)) = issued s @ [(endpoint, retries)]"
    and "cache (snd (fetchAPI now endpoint False retries s)) endpoint = None"
    by (simp_all add: fetchAPI_def check_cache_def Let_def)
qed

text \<open>
  C6. The claim: a call without bypass that finds an entry at or past the TTL evicts it and
  triggers exactly one new network attempt sequence. When a request for the endpoint is
  already in flight (a bypass call started it while the entry was still stored), the call
  evicts the entry and joins that request: no new sequence is issued. In a session without
  bypass calls this cannot happen (\<open>cache_ttl_without_bypass\<close>).
\<close>

theorem cache_ttl_counterexample:
  "fst (run [Call 0 ''/summary'' False 2,
             Settle 100 0 (\<lambda>_. Response 200 (Some JNull)),
             Call 30000 ''/summary'' True 2] initial_api_state) = [Promise 0, Promise 1]
   \<and> cache (snd (run [Call 0 ''/summary'' False 2,
             Settle 100 0 (\<lambda>_. Response 200 (Some JNull)),
             Call 30000 ''/summary'' True 2] initial_api_state)) ''/summary''
       = Some \<lparr>ce_data = JNull, ce_timestamp = 100\<rparr>
   \<and> issued (snd (run [Call 0 ''/summary'' False 2,
             Settle 100 0 (\<lambda>_. Response 200 (Some JNull)),
             Call 30000 ''/summary'' True 2] initial_api_state))
       = [(''/summary'', 2), (''/summary'', 2)]
   \<and> fst (fetchAPI 30200 ''/summary'' False 2
        (snd (run [Call 0 ''/summary'' False 2,
             Settle 100 0 (\<lambda>_. Response 200 (Some JNull)),
             Call 30000 ''/summary'' True 2] initial_api_state))) = Promise 1
   \<and> issued (snd (fetchAPI 30200 ''/summary'' False 2
        (snd (run [Call 0 ''/summary'' False 2,
             Settle 100 0 (\<lambda>_. Response 200 (Some JNull)),
             Call 30000 ''/summary'' True 2] initial_api_state))))
       = [(''/summary'', 2), (''/summary'', 2)]
   \<and> cache (snd (fetchAPI 30200 ''/summary'' False 2
        (snd (run [Call 0 ''/summary'' False 2,
             Settle 100 0 (\<lambda>_. Response 200 (Some JNull)),
             Call 30000 ''/summary'' True 2] initial_api_state)))) ''/summary'' = None"
  by (simp add: initial_api_state_def fetchAPI_def check_cache_def settle_request_def
      request_promise_def request_loop.simps try_attempt_def response_ok_def cacheTimeout_def
      Let_def)

text \<open>
  C6, as the code has it. A call without bypass that finds an entry younger than 30000 ms
  returns its data and changes nothing; one that finds an entry aged 30000 ms or more
  deletes it and then issues exactly one new request if none is pending for the endpoint,
  and otherwise returns the pending one and issues none.
\<close>

theorem cache_ttl:
  assumes "cache s endpoint = Some entry"
  shows "(now - ce_timestamp entry < 30000 \<longrightarrow>
            fetchAPI now endpoint False retries s = (Cached (ce_data entry), s))
       \<and> (30000 \<le> now - ce_timestamp entry \<longrightarrow>
            cache (snd (fetchAPI now endpoint False retries s)) endpoint = None
          \<and> (pendingRequests s endpoint = None \<longrightarrow>
                fst (fetchAPI now endpoint False retries s) = Promise (length (issued s))
              \<and> issued (snd (fetchAPI now endpoint False retries s))
                  = issued s @ [(endpoint, retries)]
              \<and> pendingRequests (snd (fetchAPI now endpoint False retries s)) endpoint
                  = Some (length (issued s)))
          \<and> (\<forall>p. pendingRequests s endpoint = Some p \<longrightarrow>
                fst (fetchAPI now endpoint False retries s) = Promise p
              \<and> issued (snd (fetchAPI now endpoint False retries s)) = issued s))"
  using assms
  by (auto simp: fetchAPI_def check_cache_def cacheTimeout_def Let_def split: option.splits)

theorem cache_ttl_witness:
  "fst (fetchAPI 29999 ''/summary'' False 2
      \<lparr>cache = [''/summary'' \<mapsto> \<lparr>ce_data = JNull, ce_timestamp = 0\<rparr>],
       pendingRequests = Map.empty, issued = [], settled = Map.empty\<rparr>) = Cached JNull
   \<and> fst (fetchAPI 30000 ''/summary'' False 2
      \<lparr>cache = [''/summary'' \<mapsto> \<lparr>ce_data = JNull, ce_timestamp = 0\<rparr>],
       pendingRequests = Map.empty, issued = [], settled = Map.empty\<rparr>) = Promise 0
   \<and> issued (snd (fetchAPI 30000 ''/summary'' False 2
      \<lparr>cache = [''/summary'' \<mapsto> \<lparr>ce_data = JNull, ce_timestamp = 0\<rparr>],
       pendingRequests = Map.empty, issued = [], settled = Map.empty\<rparr>)) = [(''/summary'', 2)]"
  (is "fst (fetchAPI _ _ _ _ ?s) = _ \<and> _")
proof -
  have entry: "cache ?s ''/summary'' = Some \<lparr>ce_data = JNull, ce_timestamp = 0\<rparr>" by simp
  from cache_ttl [OF entry, of 29999 2] cache_ttl [OF entry, of 30000 2]
  show ?thesis by simp
qed

section \<open>Properties of the asset cache proxy\<close>

text \<open>
  C3. The claim: when an intercepted GET request to an API path fails at the network, the
  synthesized response has the body \<open>{success: false, error: "offline"}\<close>. The body
  the listener builds carries the message \<open>You are offline\<close>.
\<close>

theorem offline_body_counterexample:
  "fetch_listener \<lparr>rq_method = ''GET'', rq_url = ''https://tracker.example/api/summary'',
      rq_pathname = ''/api/summary''\<rparr> Map.empty Unreachable
     = (Responded \<lparr>rs_status = 200, rs_content_type = Some ''application/json'',
          rs_body = JObj [(''success'', JBool False), (''error'', JStr ''You are offline'')]\<rparr>,
        Map.empty)
   \<and> JObj [(''success'', JBool False), (''error'', JStr ''You are offline'')]
       \<noteq> JObj [(''success'', JBool False), (''error'', JStr ''offline'')]"
  by (simp add: fetch_listener_def offline_response_def)

text \<open>
  C3, as the code has it. For a GET request whose path starts with \<open>/api/\<close> and whose
  network fetch fails, the listener answers with a synthesized response of body
  \<open>{success: false, error: "You are offline"}\<close> instead of a rejected promise, and
  leaves the cache as it is.
\<close>

theorem api_offline_response:
  assumes "rq_method request = ''GET''" and "prefix ''/api/'' (rq_pathname request)"
  shows "fetch_listener request caches Unreachable = (Responded offline_response, caches)
       \<and> rs_body offline_response
           = JObj [(''success'', JBool False), (''error'', JStr ''You are offline'')]"
  using assms by (simp add: fetch_listener_def offline_response_def)

theorem api_offline_response_witness:
  "fst (fetch_listener \<lparr>rq_method = ''GET'',
      rq_url = ''https://tracker.example/api/chart/all?start_date=2025-01-01'',
      rq_pathname = ''/api/chart/all''\<rparr>
          Map.empty Unreachable) = Responded offline_response"
proof -
  have m: "rq_method \<lparr>rq_method = ''GET'',
      rq_url = ''https://tracker.example/api/chart/all?start_date=2025-01-01'',
      rq_pathname = ''/api/chart/all''\<rparr> = ''GET''"
    by simp
  have p: "prefix ''/api/'' (rq_pathname \<lparr>rq_method = ''GET'',
      rq_url = ''https://tracker.example/api/chart/all?start_date=2025-01-01'',
      rq_pathname = ''/api/chart/all''\<rparr>)"
    by simp
  from api_offline_response [OF m p, of Map.empty] show ?thesis by simp
qed

section \<open>Properties of the fallback summary\<close>

text \<open>
  C10. For a payload whose \<open>data_points\<close> is empty, the summary that
  \<open>renderFallbackChart\<close> computes has average, high and low 0 and a daily table without
  rows, and this is the view it writes into the container (it writes nothing when the
  container does not exist). Without the length guards the three statistics would be
  \<open>NaN\<close>, \<open>-Infinity\<close> and \<open>Infinity\<close>.
\<close>

theorem fallback_empty:
  "fallback_summary collation \<lparr>data_points = []\<rparr> =
     Inr \<lparr>v_avg = Finite 0, v_high = Finite 0, v_low = Finite 0, v_total = 0, v_rows = []\<rparr>
   \<and> renderFallbackChart e s \<lparr>data_points = []\<rparr> variant =
     (if has_container e
      then (s\<lparr>chartFallbackMode := True\<rparr>,
            Inr (Some \<lparr>v_avg = Finite 0, v_high = Finite 0, v_low = Finite 0, v_total = 0,
                       v_rows = []\<rparr>))
      else (s, Inr None))
   \<and> js_divide (sum_list []) (length ([] :: real list)) = NaN
   \<and> Math_max [] = NegInfinity \<and> Math_min [] = PosInfinity"
  by (simp add: renderFallbackChart_def fallback_summary_def js_sort_def js_divide_def Let_def)

section \<open>Properties of the chart capability manager\<close>

lemma renderFallbackChart_flag:
  assumes "renderFallbackChart e s data variant = (s', r)"
  shows "chartFallbackMode s' \<longleftrightarrow> chartFallbackMode s \<or> has_container e"
    and "chart s' = chart s" and "chartSeries s' = chartSeries s"
  using assms by (auto simp: renderFallbackChart_def Let_def split: if_splits sum.splits)

lemma daily_points_error:
  assumes "daily_points dailyData ps = Inl ex"
  shows "ex = TypeError"
  using assms
  by (induction ps arbitrary: dailyData)
     (auto simp: daily_point_def Let_def split: sum.splits property.splits)

lemma renderFallbackChart_error:
  assumes "renderFallbackChart e s data variant = (s', Inl ex)"
  shows "ex = TypeError"
  using assms daily_points_error
  by (auto simp: renderFallbackChart_def fallback_summary_def Let_def split: if_splits sum.splits)

lemma update_in_fallback:
  assumes "chartFallbackMode s \<or> \<not> LightweightCharts_defined e"
    and "updateCandlestickChart e s data variant = (s', out)"
  shows "u_calls out = []" and "u_fallback out \<noteq> None" and "u_caught out = None"
    and "chartFallbackMode s' \<longleftrightarrow> chartFallbackMode s \<or> has_container e"
proof -
  obtain s1 r where f: "renderFallbackChart e s data variant = (s1, r)"
    by (cases "renderFallbackChart e s data variant")
  with assms have s': "s' = s1"
    and out: "out = \<lparr>u_calls = [], u_caught = None, u_fallback = Some r\<rparr>"
    by (auto simp: updateCandlestickChart_def isChartLibraryAvailable_def)
  from out show "u_calls out = []" and "u_fallback out \<noteq> None" and "u_caught out = None"
    by simp_all
  from renderFallbackChart_flag(1) [OF f] s'
  show "chartFallbackMode s' \<longleftrightarrow> chartFallbackMode s \<or> has_container e" by simp
qed

lemma run_updates_in_fallback:
  assumes "chartFallbackMode s" and "run_updates us s = (s', outs)"
  shows "chartFallbackMode s' \<and> (\<forall>out \<in> set outs. u_calls out = [] \<and> u_fallback out \<noteq> None)"
  using assms
proof (induction us arbitrary: s s' outs)
  case Nil
  then show ?case by simp
next
  case (Cons u us)
  obtain e data variant where u: "u = (e, data, variant)" by (cases u)
  obtain s1 out where up: "updateCandlestickChart e s data variant = (s1, out)"
    by (cases "updateCandlestickChart e s data variant")
  obtain s2 outs2 where r: "run_updates us s1 = (s2, outs2)" by (cases "run_updates us s1")
  from Cons.prems(2) u up r have s': "s' = s2" and outs: "outs = out # outs2" by simp_all
  from Cons.prems(1) have pre: "chartFallbackMode s \<or> \<not> LightweightCharts_defined e" by simp
  note o = update_in_fallback [OF pre up]
  from o(4) Cons.prems(1) have "chartFallbackMode s1" by simp
  from Cons.IH [OF this r] o(1,2) s' outs show ?case by simp
qed

lemma add_variant_series_thrown:
  assumes "add_variant_series e groups s = (s', calls, ex)"
  shows "chartFallbackMode s' = chartFallbackMode s \<and> chart s' = chart s
       \<and> (\<forall>c. (c, True) \<in> set calls \<longrightarrow> ex = Some (ChartException c))"
  using assms
proof (induction e groups s arbitrary: s' calls ex rule: add_variant_series.induct)
  case (1 e s)
  then show ?case by simp
next
  case (2 e variantKey points rest s)
  show ?case
  proof (cases "points = []")
    case True
    with "2.prems" "2.IH"(1) show ?thesis by simp
  next
    case False
    let ?cd = "variant_candles variantKey points"
    show ?thesis
    proof (cases "throws e (AddCandlestickSeries variantKey)")
      case True
      with False "2.prems" show ?thesis by (auto simp: Let_def)
    next
      case add: False
      show ?thesis
      proof (cases "throws e (SetData (Series variantKey) ?cd)")
        case True
        with False add "2.prems" show ?thesis by (auto simp: Let_def)
      next
        case set: False
        obtain s2 calls2 ex2 where rest:
          "add_variant_series e rest (s\<lparr>chartSeries := chartSeries s @ [Series variantKey]\<rparr>)
             = (s2, calls2, ex2)"
          by (cases "add_variant_series e rest
                (s\<lparr>chartSeries := chartSeries s @ [Series variantKey]\<rparr>)") auto
        from "2.IH"(2) [OF False refl add set rest]
        have ih: "chartFallbackMode s2 = chartFallbackMode s \<and> chart s2 = chart s
            \<and> (\<forall>c. (c, True) \<in> set calls2 \<longrightarrow> ex2 = Some (ChartException c))"
          by simp
        from False add set rest "2.prems"
        have "s' = s2" and "ex = ex2"
          and "calls = [(AddCandlestickSeries variantKey, False),
                        (SetData (Series variantKey) ?cd, False)] @ calls2"
          by (simp_all add: Let_def)
        with ih show ?thesis by auto
      qed
    qed
  qed
qed

lemma render_overlay_thrown:
  assumes "render_overlay e s data = (s', calls, ex)"
  shows "chartFallbackMode s' = chartFallbackMode s \<and> chart s' = chart s
       \<and> (\<forall>c. (c, True) \<in> set calls \<longrightarrow> ex = Some (ChartException c))"
proof (cases "group_points variantGroups (data_points data)")
  case (Inl x)
  with assms show ?thesis by (simp add: render_overlay_def)
next
  case (Inr groups)
  obtain s2 calls2 ex2 where a: "add_variant_series e groups s = (s2, calls2, ex2)"
    by (cases "add_variant_series e groups s") auto
  note t = add_variant_series_thrown [OF a]
  from assms Inr a t show ?thesis
    by (cases ex2) (auto simp: render_overlay_def split: if_splits)
qed

lemma render_single_thrown:
  assumes "render_single e s data variant = (s', calls, ex)"
  shows "chartFallbackMode s' = chartFallbackMode s \<and> chart s' = chart s
       \<and> (\<forall>c. (c, True) \<in> set calls \<longrightarrow> ex = Some (ChartException c))"
  using assms by (auto simp: render_single_def Let_def split: if_splits)

lemma render_thrown:
  assumes "render e s data variant = (s', calls, ex)"
    and "(c, True) \<in> set calls" and "\<forall>sr. c \<noteq> RemoveSeries sr"
  shows "ex = Some (ChartException c)"
    and "chartFallbackMode s' = chartFallbackMode s" and "chart s' = chart s"
proof -
  let ?s1 = "s\<lparr>chartSeries := []\<rparr>"
  let ?removed = "map (\<lambda>sr. (RemoveSeries sr, throws e (RemoveSeries sr))) (chartSeries s)"
  obtain s2 calls2 ex2 where body:
    "(if variant = ''all'' then render_overlay e ?s1 data else render_single e ?s1 data variant)
       = (s2, calls2, ex2)"
    by (cases "if variant = ''all'' then render_overlay e ?s1 data
               else render_single e ?s1 data variant") auto
  with assms(1) have eq: "s' = s2" "calls = ?removed @ calls2" "ex = ex2"
    by (simp_all add: render_def Let_def)
  have t: "chartFallbackMode s2 = chartFallbackMode ?s1 \<and> chart s2 = chart ?s1
       \<and> (\<forall>c. (c, True) \<in> set calls2 \<longrightarrow> ex2 = Some (ChartException c))"
    using body render_overlay_thrown [of e ?s1 data s2 calls2 ex2]
      render_single_thrown [of e ?s1 data variant s2 calls2 ex2]
    by (simp split: if_splits)
  from assms(2,3) eq(2) have "(c, True) \<in> set calls2" by auto
  with t eq show "ex = Some (ChartException c)"
    and "chartFallbackMode s' = chartFallbackMode s" and "chart s' = chart s"
    by simp_all
qed


text \<open>
  With a library that does not throw, the overlay makes exactly the calls that attach the
  series of \<open>overlay_series\<close>, and then fits the view.
\<close>

lemma add_variant_series_healthy:
  assumes "\<forall>c. \<not> throws e c"
  shows "add_variant_series e groups s =
     (s\<lparr>chartSeries := chartSeries s
           @ map (\<lambda>(variantKey, ps). Series variantKey) (filter (\<lambda>(variantKey, ps). ps \<noteq> []) groups)\<rparr>,
      series_calls (map (\<lambda>(variantKey, ps). (variantKey, variant_candles variantKey ps))
                      (filter (\<lambda>(variantKey, ps). ps \<noteq> []) groups)),
      None)"
  using assms
proof (induction groups arbitrary: s)
  case Nil
  then show ?case by (simp add: series_calls_def)
next
  case (Cons g groups)
  obtain variantKey ps where g: "g = (variantKey, ps)" by (cases g)
  show ?case
  proof (cases "ps = []")
    case True
    with g Cons show ?thesis by simp
  next
    case False
    with g Cons.prems Cons.IH [OF Cons.prems, of "s\<lparr>chartSeries := chartSeries s @ [Series variantKey]\<rparr>"]
    show ?thesis by (simp add: series_calls_def Let_def)
  qed
qed

lemma render_overlay_healthy:
  assumes "\<forall>c. \<not> throws e c"
  shows "render_overlay e s data =
     (case overlay_series (data_points data) of
        Inl ex \<Rightarrow> (s, [], Some ex)
      | Inr out \<Rightarrow>
          (s\<lparr>chartSeries := chartSeries s @ map (\<lambda>(variantKey, candleData). Series variantKey) out\<rparr>,
           series_calls out @ [(FitContent, False)], None))"
proof (cases "group_points variantGroups (data_points data)")
  case (Inl ex)
  then show ?thesis by (simp add: render_overlay_def overlay_series_def)
next
  case (Inr groups)
  with assms add_variant_series_healthy [OF assms, of groups s] show ?thesis
    by (simp add: render_overlay_def overlay_series_def case_prod_unfold comp_def)
qed

lemma update_after_render:
  assumes r: "render e s1 data variant = (s2, calls2, ex)"
    and up: "updateCandlestickChart e s data variant = (s', out)"
    and live: "\<not> chartFallbackMode s" "LightweightCharts_defined e"
    and init: "(case chart s of None \<Rightarrow> initChart e s | Some c \<Rightarrow> (True, s, [])) = (True, s1, calls1)"
  shows "case ex of
           None \<Rightarrow> s' = s2 \<and> out = \<lparr>u_calls = calls1 @ calls2, u_caught = None, u_fallback = None\<rparr>
         | Some x \<Rightarrow>
             s' = fst (renderFallbackChart e s2 data variant)
           \<and> out = \<lparr>u_calls = calls1 @ calls2, u_caught = Some x,
                     u_fallback = Some (snd (renderFallbackChart e s2 data variant))\<rparr>"
  using up live r init
  by (cases ex)
     (simp_all add: updateCandlestickChart_def isChartLibraryAvailable_def case_prod_unfold)

lemma update_without_chart:
  assumes none: "chart s = None"
    and surroundings: "\<not> has_container e \<or> \<not> LightweightCharts_defined e"
    and up: "updateCandlestickChart e s data variant = (s', out)"
  shows "u_calls out = []" and "u_fallback out \<noteq> None" and "chart s' = None"
proof -
  have "u_calls out = [] \<and> u_fallback out \<noteq> None \<and> chart s' = None"
  proof (cases "chartFallbackMode s \<or> \<not> LightweightCharts_defined e")
    case True
    obtain s1 r where f: "renderFallbackChart e s data variant = (s1, r)"
      by (cases "renderFallbackChart e s data variant")
    with True up have "s' = s1" by (auto simp: updateCandlestickChart_def isChartLibraryAvailable_def)
    with renderFallbackChart_flag(2) [OF f] none update_in_fallback(1,2) [OF True up]
    show ?thesis by simp
  next
    case False
    with surroundings have "\<not> has_container e" by blast
    with False none up show ?thesis
      by (auto simp: updateCandlestickChart_def isChartLibraryAvailable_def initChart_def
          renderFallbackChart_def)
  qed
  then show "u_calls out = []" and "u_fallback out \<noteq> None" and "chart s' = None"
    by simp_all
qed

lemma run_updates_without_chart:
  assumes "chart s = None"
    and "\<forall>u \<in> set us. \<not> has_container (fst u) \<or> \<not> LightweightCharts_defined (fst u)"
    and "run_updates us s = (s', outs)"
  shows "\<forall>out \<in> set outs. u_calls out = [] \<and> u_fallback out \<noteq> None"
  using assms
proof (induction us arbitrary: s s' outs)
  case Nil
  then show ?case by simp
next
  case (Cons u us)
  obtain e data variant where u: "u = (e, data, variant)" by (cases u)
  obtain s1 out where up: "updateCandlestickChart e s data variant = (s1, out)"
    by (cases "updateCandlestickChart e s data variant")
  obtain s2 outs2 where r: "run_updates us s1 = (s2, outs2)" by (cases "run_updates us s1")
  from Cons.prems(3) u up r have outs: "outs = out # outs2" by simp
  from Cons.prems(2) u have here: "\<not> has_container e \<or> \<not> LightweightCharts_defined e" by simp
  note o = update_without_chart [OF Cons.prems(1) here up]
  from Cons.prems(2)
  have "\<forall>u \<in> set us. \<not> has_container (fst u) \<or> \<not> LightweightCharts_defined (fst u)" by simp
  from Cons.IH [OF o(3) this r] o(1,2) outs show ?case by simp
qed

text \<open>
  C8. When \<open>LightweightCharts\<close> is undefined at initialization (no chart exists yet),
  \<open>initChart\<close> calls nothing of the library and returns false; the manager is in
  fallback at once, with the flag set when the container exists. From then on no data
  update calls the library and every one goes to the fallback summary: whatever the later
  surroundings when the container existed at initialization, and otherwise as long as no
  update finds both the container and the library.
\<close>

theorem capability_undefined:
  assumes "\<not> LightweightCharts_defined e" and "chart s = None"
  shows "initChart e s = (False, s\<lparr>chartFallbackMode := chartFallbackMode s \<or> has_container e\<rparr>, [])
       \<and> render_state e (fst (snd (initChart e s))) = Fallback
       \<and> (\<forall>us s' outs.
             (has_container e
              \<or> (\<forall>u \<in> set us. \<not> has_container (fst u) \<or> \<not> LightweightCharts_defined (fst u))) \<longrightarrow>
             run_updates us (fst (snd (initChart e s))) = (s', outs) \<longrightarrow>
             (\<forall>out \<in> set outs. u_calls out = [] \<and> u_fallback out \<noteq> None))"
proof (intro conjI allI impI)
  show init: "initChart e s = (False, s\<lparr>chartFallbackMode := chartFallbackMode s \<or> has_container e\<rparr>, [])"
    using assms by (simp add: initChart_def isChartLibraryAvailable_def)
  show "render_state e (fst (snd (initChart e s))) = Fallback"
    using assms by (simp add: render_state_def isChartLibraryAvailable_def)
  fix us s' outs
  assume surroundings: "has_container e
      \<or> (\<forall>u \<in> set us. \<not> has_container (fst u) \<or> \<not> LightweightCharts_defined (fst u))"
    and run: "run_updates us (fst (snd (initChart e s))) = (s', outs)"
  from surroundings show "\<forall>out \<in> set outs. u_calls out = [] \<and> u_fallback out \<noteq> None"
  proof
    assume "has_container e"
    with init have "chartFallbackMode (fst (snd (initChart e s)))" by simp
    from run_updates_in_fallback [OF this run] show ?thesis by simp
  next
    assume later: "\<forall>u \<in> set us. \<not> has_container (fst u) \<or> \<not> LightweightCharts_defined (fst u)"
    from init assms(2) have "chart (fst (snd (initChart e s))) = None" by simp
    from run_updates_without_chart [OF this later run] show ?thesis .
  qed
qed

theorem capability_undefined_witness:
  "fst (initChart
     \<lparr>LightweightCharts_defined = False, has_container = True, has_legend = True,
      throws = (\<lambda>c. False), localeCompare = code_unit_order\<rparr> initial_chart_state) = False
   \<and> chartFallbackMode (fst (snd (initChart
     \<lparr>LightweightCharts_defined = False, has_container = True, has_legend = True,
      throws = (\<lambda>c. False), localeCompare = code_unit_order\<rparr> initial_chart_state)))
   \<and> u_calls (snd (updateCandlestickChart
     \<lparr>LightweightCharts_defined = True, has_container = True, has_legend = True,
      throws = (\<lambda>c. False), localeCompare = code_unit_order\<rparr>
     (fst (snd (initChart
       \<lparr>LightweightCharts_defined = False, has_container = True, has_legend = True,
        throws = (\<lambda>c. False), localeCompare = code_unit_order\<rparr> initial_chart_state)))
     \<lparr>data_points =
        [\<lparr>pt_x = 1000, pt_y = 100, pt_variant = ''jumbo'', pt_date = ''2025-01-01''\<rparr>]\<rparr>
     ''all'')) = []"
  (is "fst (initChart ?e0 _) = False \<and> chartFallbackMode ?s1
       \<and> u_calls (snd (updateCandlestickChart ?e1 ?s1 ?d ''all'')) = []")
proof -
  have undefined: "\<not> LightweightCharts_defined ?e0" by simp
  have no_chart: "chart initial_chart_state = None" by (simp add: initial_chart_state_def)
  note t = capability_undefined [OF undefined no_chart]
  from t have init: "fst (initChart ?e0 initial_chart_state) = False"
    and flag: "chartFallbackMode ?s1" by simp_all
  let ?us = "[(?e1, ?d, ''all'')]"
  have run: "run_updates ?us ?s1
      = (fst (updateCandlestickChart ?e1 ?s1 ?d ''all''),
         [snd (updateCandlestickChart ?e1 ?s1 ?d ''all'')])"
    by (simp add: case_prod_unfold)
  from t have "\<forall>out \<in> set [snd (updateCandlestickChart ?e1 ?s1 ?d ''all'')].
      u_calls out = [] \<and> u_fallback out \<noteq> None"
    using run by (elim conjE allE [of _ ?us] allE impE) (simp, assumption+)
  with init flag show ?thesis by simp
qed

text \<open>
  C5. The claim: whenever a call into the charting library throws during a data update,
  the manager enters fallback. The calls of \<open>removeSeries\<close> have a \<open>try\<close> of their own
  with an empty \<open>catch\<close>: when one of them throws, the update goes on and the chart
  stays live.
\<close>

theorem render_failure_counterexample:
  "updateCandlestickChart
     \<lparr>LightweightCharts_defined = True, has_container = True, has_legend = True,
      throws = (\<lambda>c. c = RemoveSeries (Series ''jumbo'')), localeCompare = code_unit_order\<rparr>
     \<lparr>chart = Some Chart, chartSeries = [Series ''jumbo''], chartFallbackMode = False\<rparr>
     \<lparr>data_points =
        [\<lparr>pt_x = 1000, pt_y = 100, pt_variant = ''jumbo'', pt_date = ''2025-01-01''\<rparr>]\<rparr>
     ''all''
   = (\<lparr>chart = Some Chart, chartSeries = [Series ''jumbo''], chartFallbackMode = False\<rparr>,
      \<lparr>u_calls =
         [(RemoveSeries (Series ''jumbo''), True),
          (AddCandlestickSeries ''jumbo'', False),
          (SetData (Series ''jumbo'')
             [\<lparr>c_time = 1, c_open = 997 / 10, c_high = 1003 / 10, c_low = 997 / 10,
                c_close = 1003 / 10\<rparr>], False),
          (FitContent, False)],
       u_caught = None, u_fallback = None\<rparr>)"
  by (simp add: updateCandlestickChart_def isChartLibraryAvailable_def render_def
      render_overlay_def variantGroups_def group_point_def object_get_def object_set_def
      variant_candles_def variantOffsets_def sort_by_x_def js_sort_def overlay_candle_def
      enumerate_eq_zip upt_rec Let_def)

text \<open>
  C5, as the code has it. When a call into the charting library other than
  \<open>removeSeries\<close> throws during a data update (the container existing if the chart was
  created earlier), the exception is caught (by \<open>initChart\<close> for \<open>createChart\<close>, by the
  \<open>catch\<close> of the update otherwise) and never leaves the update, the fallback flag is
  set and the summary is rendered; every later update makes no call into the library and
  renders the summary.
\<close>

theorem render_failure_demotes:
  assumes up: "updateCandlestickChart e s data variant = (s', out)"
    and thrown: "(c, True) \<in> set (u_calls out)"
    and not_remove: "\<forall>sr. c \<noteq> RemoveSeries sr"
    and container: "chart s = None \<or> has_container e"
  shows "chartFallbackMode s'
       \<and> u_fallback out \<noteq> None
       \<and> (\<forall>c'. u_fallback out \<noteq> Some (Inl (ChartException c')))
       \<and> (c = CreateChart \<or> u_caught out = Some (ChartException c))
       \<and> (\<forall>us s'' outs. run_updates us s' = (s'', outs) \<longrightarrow>
             chartFallbackMode s'' \<and> (\<forall>out' \<in> set outs. u_calls out' = [] \<and> u_fallback out' \<noteq> None))"
proof -
  have "\<not> (chartFallbackMode s \<or> \<not> LightweightCharts_defined e)"
  proof
    assume "chartFallbackMode s \<or> \<not> LightweightCharts_defined e"
    from update_in_fallback(1) [OF this up] thrown show False by simp
  qed
  then have live: "\<not> chartFallbackMode s" "LightweightCharts_defined e" by simp_all
  have no_chart_error: "r \<noteq> Inl (ChartException c')"
    if "renderFallbackChart e s0 data variant = (s1, r)" for s0 s1 r c'
    using renderFallbackChart_error [of e s0 data variant s1] that by auto
  have main: "chartFallbackMode s' \<and> u_fallback out \<noteq> None
       \<and> (\<forall>c'. u_fallback out \<noteq> Some (Inl (ChartException c')))
       \<and> (c = CreateChart \<or> u_caught out = Some (ChartException c))"
  proof (cases "chart s")
    case (Some ch)
    with container have cont: "has_container e" by simp
    obtain s2 calls2 ex where r: "render e s data variant = (s2, calls2, ex)"
      by (cases "render e s data variant") auto
    from Some have init: "(case chart s of None \<Rightarrow> initChart e s | Some c \<Rightarrow> (True, s, []))
        = (True, s, [])" by simp
    note u = update_after_render [OF r up live init]
    have in2: "(c, True) \<in> set calls2"
      using u thrown by (cases ex) auto
    from render_thrown(1) [OF r in2 not_remove] have ex: "ex = Some (ChartException c)" .
    obtain s3 r3 where f: "renderFallbackChart e s2 data variant = (s3, r3)"
      by (cases "renderFallbackChart e s2 data variant")
    from u ex f have s': "s' = s3" and out: "u_fallback out = Some r3"
      "u_caught out = Some (ChartException c)" by simp_all
    from renderFallbackChart_flag(1) [OF f] cont s' have "chartFallbackMode s'" by simp
    with out no_chart_error [OF f] show ?thesis by simp
  next
    case None
    show ?thesis
    proof (cases "has_container e")
      case False
      with None live up have "u_calls out = []"
        by (auto simp: updateCandlestickChart_def initChart_def isChartLibraryAvailable_def
            case_prod_unfold)
      with thrown show ?thesis by simp
    next
      case cont: True
      show ?thesis
      proof (cases "throws e CreateChart")
        case True
        let ?s1 = "s\<lparr>chartFallbackMode := True\<rparr>"
        from None cont live True have init: "initChart e s = (False, ?s1, [(CreateChart, True)])"
          by (simp add: initChart_def isChartLibraryAvailable_def)
        obtain s3 r3 where f: "renderFallbackChart e ?s1 data variant = (s3, r3)"
          by (cases "renderFallbackChart e ?s1 data variant")
        from up None live init f have s': "s' = s3"
          and out: "out = \<lparr>u_calls = [(CreateChart, True)], u_caught = None, u_fallback = Some r3\<rparr>"
          by (simp_all add: updateCandlestickChart_def isChartLibraryAvailable_def)
        from thrown out have c: "c = CreateChart" by simp
        from renderFallbackChart_flag(1) [OF f] s' have "chartFallbackMode s'" by simp
        with out c no_chart_error [OF f] show ?thesis by simp
      next
        case False
        let ?s1 = "s\<lparr>chart := Some Chart, chartFallbackMode := False\<rparr>"
        from None cont live False have init0: "initChart e s = (True, ?s1, [(CreateChart, False)])"
          by (simp add: initChart_def isChartLibraryAvailable_def)
        with None have init: "(case chart s of None \<Rightarrow> initChart e s | Some c \<Rightarrow> (True, s, []))
            = (True, ?s1, [(CreateChart, False)])" by simp
        obtain s2 calls2 ex where r: "render e ?s1 data variant = (s2, calls2, ex)"
          by (cases "render e ?s1 data variant") auto
        note u = update_after_render [OF r up live init]
        have in2: "(c, True) \<in> set calls2"
          using u thrown by (cases ex) auto
        from render_thrown(1) [OF r in2 not_remove] have ex: "ex = Some (ChartException c)" .
        obtain s3 r3 where f: "renderFallbackChart e s2 data variant = (s3, r3)"
          by (cases "renderFallbackChart e s2 data variant")
        from u ex f have s': "s' = s3" and out: "u_fallback out = Some r3"
          "u_caught out = Some (ChartException c)" by simp_all
        from renderFallbackChart_flag(1) [OF f] cont s' have "chartFallbackMode s'" by simp
        with out no_chart_error [OF f] show ?thesis by simp
      qed
    qed
  qed
  moreover have "\<forall>us s'' outs. run_updates us s' = (s'', outs) \<longrightarrow>
      chartFallbackMode s'' \<and> (\<forall>out' \<in> set outs. u_calls out' = [] \<and> u_fallback out' \<noteq> None)"
    using run_updates_in_fallback main by blast
  ultimately show ?thesis by simp
qed

theorem render_failure_demotes_witness:
  "chartFallbackMode (fst (updateCandlestickChart
     \<lparr>LightweightCharts_defined = True, has_container = True, has_legend = True,
      throws = (\<lambda>c. c = FitContent), localeCompare = code_unit_order\<rparr>
     \<lparr>chart = Some Chart, chartSeries = [], chartFallbackMode = False\<rparr>
     \<lparr>data_points =
        [\<lparr>pt_x = 1000, pt_y = 100, pt_variant = ''jumbo'', pt_date = ''2025-01-01''\<rparr>]\<rparr>
     ''all''))
   \<and> u_caught (snd (updateCandlestickChart
     \<lparr>LightweightCharts_defined = True, has_container = True, has_legend = True,
      throws = (\<lambda>c. c = FitContent), localeCompare = code_unit_order\<rparr>
     \<lparr>chart = Some Chart, chartSeries = [], chartFallbackMode = False\<rparr>
     \<lparr>data_points =
        [\<lparr>pt_x = 1000, pt_y = 100, pt_variant = ''jumbo'', pt_date = ''2025-01-01''\<rparr>]\<rparr>
     ''all'')) = Some (ChartException FitContent)"
  (is "chartFallbackMode (fst (updateCandlestickChart ?e ?s ?d ''all'')) \<and> _")
proof -
  have up: "updateCandlestickChart ?e ?s ?d ''all''
      = (fst (updateCandlestickChart ?e ?s ?d ''all''), snd (updateCandlestickChart ?e ?s ?d ''all''))"
    by simp
  have thrown: "(FitContent, True) \<in> set (u_calls (snd (updateCandlestickChart ?e ?s ?d ''all'')))"
    by (simp add: updateCandlestickChart_def isChartLibraryAvailable_def render_def
        render_overlay_def variantGroups_def group_point_def object_get_def object_set_def
        variant_candles_def variantOffsets_def sort_by_x_def js_sort_def overlay_candle_def
        enumerate_eq_zip upt_rec Let_def case_prod_unfold)
  have not_remove: "\<forall>sr. FitContent \<noteq> RemoveSeries sr" by simp
  have container: "chart ?s = None \<or> has_container ?e" by simp
  from render_failure_demotes [OF up thrown not_remove container] show ?thesis by simp
qed

section \<open>Labels outside the known variants\<close>

lemma group_point_total:
  assumes "pt_variant p \<notin> set Object_prototype_keys"
  shows "\<exists>groups'. group_point groups p = Inr groups'"
  using assms by (simp add: group_point_def object_get_def Let_def split: option.splits)

lemma group_points_total:
  assumes "\<forall>p \<in> set points. pt_variant p \<notin> set Object_prototype_keys"
  shows "\<exists>groups'. group_points groups points = Inr groups'"
  using assms
proof (induction points arbitrary: groups)
  case Nil
  then show ?case by simp
next
  case (Cons p points)
  from Cons.prems have "pt_variant p \<notin> set Object_prototype_keys" by simp
  from group_point_total [OF this] obtain g1 where "group_point groups p = Inr g1" by blast
  moreover from Cons.IH [of g1] Cons.prems obtain g2 where "group_points g1 points = Inr g2"
    by auto
  ultimately show ?case by simp
qed

lemma unknown_labels_dropped:
  assumes "\<forall>p \<in> set points. pt_variant p \<notin> set Object_prototype_keys"
  shows "\<exists>out. overlay_series points = Inr out
           \<and> map fst out = filter (\<lambda>k. \<exists>p \<in> set points. pt_variant p = k)
                              [''jumbo'', ''breakers_delight'', ''hobby'']
           \<and> (\<forall>(k, candleData) \<in> set out. candleData \<noteq> [])"
proof -
  from group_points_total [OF assms] obtain groups
    where g: "group_points variantGroups points = Inr groups" by blast
  note groups = overlay_groups [OF g]
  have ne: "filter (\<lambda>p. pt_variant p = k) points \<noteq> [] \<longleftrightarrow> (\<exists>p \<in> set points. pt_variant p = k)"
    for k by (auto simp: filter_empty_conv)
  have len: "variant_candles k ps \<noteq> [] \<longleftrightarrow> ps \<noteq> []" for k ps
  proof -
    have "length (variant_candles k ps) = length ps"
      by (simp add: variant_candles_def Let_def length_sort_by_x)
    then show ?thesis by (metis length_0_conv)
  qed
  show ?thesis
    unfolding overlay_series_def g groups
    by (auto simp: ne len)
qed

text \<open>
  C9. The claim: in the overlay, a point whose label is not a known variant is dropped at
  the grouping step without an error. A label that names a member of \<open>Object.prototype\<close>
  passes the truthiness test of the grouping step and the \<open>push\<close> throws: no series is
  built, not even for the known variants, the \<open>catch\<close> of the update takes over and the
  chart is replaced by the fallback summary. A label such as \<open>mega\<close> is dropped as the
  claim says.
\<close>

theorem inherited_label_raises:
  "overlay_series
     [\<lparr>pt_x = 1000, pt_y = 100, pt_variant = ''jumbo'', pt_date = ''2025-01-01''\<rparr>,
      \<lparr>pt_x = 2000, pt_y = 110, pt_variant = ''constructor'', pt_date = ''2025-01-01''\<rparr>]
     = Inl TypeError
   \<and> updateCandlestickChart
     \<lparr>LightweightCharts_defined = True, has_container = True, has_legend = True,
      throws = (\<lambda>c. False), localeCompare = code_unit_order\<rparr>
     \<lparr>chart = Some Chart, chartSeries = [], chartFallbackMode = False\<rparr>
     \<lparr>data_points =
        [\<lparr>pt_x = 1000, pt_y = 100, pt_variant = ''jumbo'', pt_date = ''2025-01-01''\<rparr>,
         \<lparr>pt_x = 2000, pt_y = 110, pt_variant = ''constructor'', pt_date = ''2025-01-01''\<rparr>]\<rparr>
     ''all''
     = (\<lparr>chart = Some Chart, chartSeries = [], chartFallbackMode = True\<rparr>,
        \<lparr>u_calls = [], u_caught = Some TypeError,
         u_fallback = Some (Inr (Some
           \<lparr>v_avg = Finite 105, v_high = Finite 110, v_low = Finite 100, v_total = 2,
            v_rows = [\<lparr>r_date = ''2025-01-01'', r_count = 2, r_avg = Finite 105,
                       r_high = Finite 110, r_low = Finite 100\<rparr>]\<rparr>))\<rparr>)
   \<and> overlay_series
     [\<lparr>pt_x = 1000, pt_y = 100, pt_variant = ''jumbo'', pt_date = ''2025-01-01''\<rparr>,
      \<lparr>pt_x = 2000, pt_y = 110, pt_variant = ''mega'', pt_date = ''2025-01-01''\<rparr>]
     = Inr [(''jumbo'',
          [\<lparr>c_time = 1, c_open = 997 / 10, c_high = 1003 / 10, c_low = 997 / 10,
             c_close = 1003 / 10\<rparr>])]"
  (is "overlay_series ?bad = _ \<and> updateCandlestickChart ?e ?s ?d ''all'' = _ \<and> _")
proof -
  have groups: "group_points variantGroups ?bad = Inl TypeError"
    by (simp add: variantGroups_def group_point_def object_get_def object_set_def
        Object_prototype_keys_def Let_def)
  then have series: "overlay_series ?bad = Inl TypeError"
    by (simp add: overlay_series_def)
  from groups have rendered: "render ?e ?s ?d ''all'' = (?s, [], Some TypeError)"
    by (simp add: render_def render_overlay_def)
  have update: "updateCandlestickChart ?e ?s ?d ''all''
     = (\<lparr>chart = Some Chart, chartSeries = [], chartFallbackMode = True\<rparr>,
        \<lparr>u_calls = [], u_caught = Some TypeError,
         u_fallback = Some (Inr (Some
           \<lparr>v_avg = Finite 105, v_high = Finite 110, v_low = Finite 100, v_total = 2,
            v_rows = [\<lparr>r_date = ''2025-01-01'', r_count = 2, r_avg = Finite 105,
                       r_high = Finite 110, r_low = Finite 100\<rparr>]\<rparr>))\<rparr>)"
    by (simp add: updateCandlestickChart_def isChartLibraryAvailable_def rendered
        renderFallbackChart_def fallback_summary_def daily_point_def day_row_of_def
        js_divide_def object_get_def object_set_def Object_prototype_keys_def js_sort_def
        Let_def)
  have dropped: "overlay_series
     [\<lparr>pt_x = 1000, pt_y = 100, pt_variant = ''jumbo'', pt_date = ''2025-01-01''\<rparr>,
      \<lparr>pt_x = 2000, pt_y = 110, pt_variant = ''mega'', pt_date = ''2025-01-01''\<rparr>]
     = Inr [(''jumbo'',
          [\<lparr>c_time = 1, c_open = 997 / 10, c_high = 1003 / 10, c_low = 997 / 10,
             c_close = 1003 / 10\<rparr>])]"
    by (simp add: overlay_series_def variantGroups_def group_point_def object_get_def
        object_set_def Object_prototype_keys_def variant_candles_def variantOffsets_def
        sort_by_x_def js_sort_def overlay_candle_def enumerate_eq_zip upt_rec Let_def)
  from series update dropped show ?thesis by (intro conjI)
qed

end
